theory Spec2Isabelle
  imports Main "HOL-Library.Word"
begin

unbundle bit_operations_syntax

section \<open>The symbol table of package symbol (src/symbol/table.go)\<close>

text \<open>
  The table interns byte strings as integer IDs.  It keeps two in-memory caches over
  an arena of byte pools and, when a database is attached, a forward and a reverse
  index in a transactional key-value store.

  Conventions of the embedding:
  \<^item> a Go byte slice is a \<open>byte list\<close>; a nil slice result is \<open>None\<close> where the
    code distinguishes nil from a value (\<open>bufForEntry\<close>, \<open>LookupID\<close>);
  \<^item> \<open>int32\<close> fields are \<open>int\<close>, and every \<open>int32\<close> conversion and
    addition of the source is wrapped by \<open>int32\<close> (two's complement);
  \<^item> a run-time panic of the source is the value \<open>Inl\<close> of a \<open>failure\<close>;
  \<^item> the two probing loops over \<open>valueCache\<close> need not end (a cache with all
    \<open>2 ^ 64\<close> slots taken), so they are \<open>partial_function\<close>s and every operation
    that runs one returns an \<open>option\<close>: \<open>None\<close> is a call that never returns;
  \<^item> the receiver \<open>st\<close> is passed in and the updated table is returned;
  \<^item> the code runs single-threaded here: the mutexes are dropped and a transaction
    never meets \<open>badger.ErrConflict\<close>, so the retry loop of
    \<open>getsetValueIDPair\<close> runs its body once;
  \<^item> the store may answer \<open>txn.Set\<close> or \<open>txn.Commit\<close> with another error (a key
    it does not accept, say); the code keeps that error in a variable local to the loop
    body and goes on, so the call returns as if the writes had been made and the store
    holds none of them.
\<close>

type_synonym byte = "8 word"

text \<open>
  Modelled from the spec: the type \<open>ID\<close> and the constant \<open>IDSz\<close> are declared in a
  file of package symbol that is not under src/.  The spec gives a symbol ID as an
  unsigned integer "serialized big-endian in 5 bytes"; the code converts an \<open>ID\<close>
  with \<open>uint64(id)\<close>, so \<open>ID\<close> is a 64-bit word and \<open>IDSz\<close> is 5.
\<close>

type_synonym ID = "64 word"

definition IDSz :: nat where
  "IDSz = 5"

datatype failure =
    IndexOutOfRange
  | SliceBoundsOutOfRange
  | MakeSliceLenOutOfRange
  | IssuerError
  | UnmarshalError

text \<open>\<open>func (id ID) WriteTo(io []byte) []byte\<close>\<close>

definition WriteTo :: "ID \<Rightarrow> byte list \<Rightarrow> byte list" where
  "WriteTo sid io = io @
     [ucast (drop_bit 32 sid),
      ucast (drop_bit 24 sid),
      ucast (drop_bit 16 sid),
      ucast (drop_bit 8 sid),
      ucast sid]"

text \<open>
  \<open>func (id *ID) ReadFrom(in []byte) int\<close>: the new value of \<open>*id\<close> and the
  returned count.  Reading \<open>in[4]\<close> of a shorter slice panics.
\<close>

definition ReadFrom :: "byte list \<Rightarrow> failure + (ID \<times> nat)" where
  "ReadFrom inb =
     (if length inb < 5 then Inl IndexOutOfRange
      else Inr (push_bit 32 (ucast (inb ! 0)) OR
                push_bit 24 (ucast (inb ! 1)) OR
                push_bit 16 (ucast (inb ! 2)) OR
                push_bit 8 (ucast (inb ! 3)) OR
                ucast (inb ! 4), IDSz))"

definition xValueIndex :: byte where
  "xValueIndex = 0xFE"

definition xNextID :: byte where
  "xNextID = 0xFF"

subsection \<open>Go's integers and slices\<close>

definition int32 :: "int \<Rightarrow> int" where
  "int32 x = (x + 2147483648) mod 4294967296 - 2147483648"

text \<open>\<open>func max(a, b int32) int32\<close>\<close>

definition max_int32 :: "int \<Rightarrow> int \<Rightarrow> int" where
  "max_int32 a b = (if a > b then a else b)"

text \<open>\<open>pools[i]\<close>: the index must name an element.\<close>

definition index_pool :: "byte list list \<Rightarrow> int \<Rightarrow> failure + byte list" where
  "index_pool pools i =
     (if 0 \<le> i \<and> i < int (length pools) then Inr (pools ! nat i) else Inl IndexOutOfRange)"

text \<open>
  \<open>xs[lo:hi]\<close> of a slice whose capacity is its length (every pool is made by
  \<open>make([]byte, n)\<close>; the nil slice has capacity 0).
\<close>

definition slice :: "byte list \<Rightarrow> int \<Rightarrow> int \<Rightarrow> failure + byte list" where
  "slice xs lo hi =
     (if 0 \<le> lo \<and> lo \<le> hi \<and> hi \<le> int (length xs)
      then Inr (take (nat (hi - lo)) (drop (nat lo) xs))
      else Inl SliceBoundsOutOfRange)"

subsection \<open>The table\<close>

record kvEntry =
  symID :: ID
  poolIdx :: int
  poolOfs :: int
  len :: int

text \<open>
  \<open>TableOpts\<close> is declared outside src/; the fields the code under src/ reads are
  kept.  \<open>Issuer\<close> holds the state of the issuer object, of any type \<open>'i\<close>; its
  method \<open>IssueNextID\<close> is a parameter \<open>I\<close> of the operations that call it, giving
  the issued ID, whether the returned error is non-nil, and the issuer's new state.
  \<open>bufs.HashBuf\<close> belongs to another module and is the parameter \<open>H\<close>.
\<close>

record 'i TableOpts =
  Issuer :: 'i
  PoolSz :: int
  DbKeyPrefix :: byte

text \<open>
  The store (\<open>badger.DB\<close>, another module): the entries it holds and the
  transactions it turns down.  \<open>refuses d sets\<close> tells that, for a transaction
  making the calls \<open>txn.Set(k, v)\<close> for the pairs of \<open>sets\<close> in this order, one of
  these calls or \<open>txn.Commit\<close> returns an error; nothing of the transaction is
  stored then.  \<open>Commit\<close> is the store after such a transaction.  A read
  (\<open>txn.Get\<close>, \<open>item.Value\<close>) gives the entry that the store holds under the key,
  if any.
\<close>

record DB =
  items :: "byte list \<rightharpoonup> byte list"
  refuses :: "(byte list \<times> byte list) list \<Rightarrow> bool"

definition Commit :: "DB \<Rightarrow> (byte list \<times> byte list) list \<Rightarrow> DB" where
  "Commit d sets =
     (if refuses d sets then d
      else d\<lparr>items := fold (\<lambda>(k, v) m. m(k \<mapsto> v)) sets (items d)\<rparr>)"

text \<open>
  \<open>db\<close> is \<open>None\<close> for a nil \<open>*badger.DB\<close>, else the store.
  \<open>curBufPool\<close> is no field of the model: the code assigns it only together with
  the append to \<open>bufPools\<close> (one slice header stored twice, one backing array), so it
  is the last element of \<open>bufPools\<close>, and the nil slice while there is none.
\<close>

record 'i symbolTable =
  opts :: "'i TableOpts"
  db :: "DB option"
  valueCache :: "64 word \<rightharpoonup> kvEntry"
  tokenCache :: "ID \<rightharpoonup> kvEntry"
  curBufPoolSz :: int
  curBufPoolIdx :: int
  bufPools :: "byte list list"

definition curBufPool :: "'i symbolTable \<Rightarrow> byte list" where
  "curBufPool st = (if bufPools st = [] then [] else last (bufPools st))"

text \<open>\<open>openTable\<close>, for options that carry an issuer.\<close>

definition openTable :: "DB option \<Rightarrow> 'i TableOpts \<Rightarrow> 'i symbolTable" where
  "openTable d os =
     \<lparr>opts = os, db = d, valueCache = Map.empty, tokenCache = Map.empty,
      curBufPoolSz = 0, curBufPoolIdx = - 1, bufPools = []\<rparr>"

definition equals :: "'i symbolTable \<Rightarrow> kvEntry \<Rightarrow> byte list \<Rightarrow> failure + bool" where
  "equals st kv buf =
     (let sz = int32 (int (length buf)) in
      if sz \<noteq> len kv then Inr False
      else case index_pool (bufPools st) (poolIdx kv) of
             Inl e \<Rightarrow> Inl e
           | Inr pool \<Rightarrow>
               (case slice pool (poolOfs kv) (int32 (poolOfs kv + sz)) of
                  Inl e \<Rightarrow> Inl e
                | Inr s \<Rightarrow> Inr (s = buf)))"

definition bufForEntry :: "'i symbolTable \<Rightarrow> kvEntry \<Rightarrow> failure + byte list option" where
  "bufForEntry st kv =
     (if symID kv = 0 then Inr None
      else case index_pool (bufPools st) (poolIdx kv) of
             Inl e \<Rightarrow> Inl e
           | Inr pool \<Rightarrow>
               (case slice pool (poolOfs kv) (int32 (poolOfs kv + len kv)) of
                  Inl e \<Rightarrow> Inl e
                | Inr s \<Rightarrow> Inr (Some s)))"

text \<open>The loop of \<open>getIDFromCache\<close>, entered with \<open>hash\<close>.\<close>

partial_function (option) getIDFromCache_loop ::
  "'i symbolTable \<Rightarrow> byte list \<Rightarrow> 64 word \<Rightarrow> (failure + ID) option" where
  "getIDFromCache_loop st buf hash =
     (case valueCache st hash of
        None \<Rightarrow> Some (Inr 0)
      | Some kv \<Rightarrow>
          (case equals st kv buf of
             Inl e \<Rightarrow> Some (Inl e)
           | Inr eq \<Rightarrow>
               if eq then Some (Inr (symID kv))
               else getIDFromCache_loop st buf (hash + 1)))"

declare getIDFromCache_loop.simps [code]

definition getIDFromCache ::
  "(byte list \<Rightarrow> 64 word) \<Rightarrow> 'i symbolTable \<Rightarrow> byte list \<Rightarrow> (failure + ID) option" where
  "getIDFromCache H st buf = getIDFromCache_loop st buf (H buf)"

text \<open>
  The loop of \<open>allocAndBindToID\<close>: it leaves \<open>hash\<close> at the destination slot and
  \<open>kv, found\<close> as the entry there, if any.
\<close>

partial_function (option) allocAndBindToID_loop ::
  "'i symbolTable \<Rightarrow> byte list \<Rightarrow> 64 word \<Rightarrow> (failure + 64 word \<times> kvEntry option) option" where
  "allocAndBindToID_loop st buf hash =
     (case valueCache st hash of
        None \<Rightarrow> Some (Inr (hash, None))
      | Some kv \<Rightarrow>
          (case equals st kv buf of
             Inl e \<Rightarrow> Some (Inl e)
           | Inr eq \<Rightarrow>
               if eq then Some (Inr (hash, Some kv))
               else allocAndBindToID_loop st buf (hash + 1)))"

declare allocAndBindToID_loop.simps [code]

text \<open>
  The block of \<open>allocAndBindToID\<close> that starts a new pool when the current one lacks
  room: \<open>make\<close> panics on a negative length, and has the memory it asks for
  otherwise.
\<close>

definition allocAndBindToID_grow :: "'i symbolTable \<Rightarrow> int \<Rightarrow> failure + 'i symbolTable" where
  "allocAndBindToID_grow st kvlen =
     (if int32 (curBufPoolSz st + kvlen) > int (length (curBufPool st))
      then (let allocSz = max_int32 (PoolSz (opts st)) kvlen in
            if allocSz < 0 then Inl MakeSliceLenOutOfRange
            else Inr (st\<lparr>curBufPoolSz := 0,
                          curBufPoolIdx := int32 (curBufPoolIdx st + 1),
                          bufPools := bufPools st @ [replicate (nat allocSz) 0]\<rparr>))
      else Inr st)"

text \<open>
  \<open>copy(st.curBufPool[ofs:ofs+n], buf)\<close>: the first \<open>min\<close> of the two lengths bytes of
  \<open>buf\<close> land in the current pool from \<open>ofs\<close> on.
\<close>

definition copy_to_curBufPool :: "'i symbolTable \<Rightarrow> nat \<Rightarrow> byte list \<Rightarrow> 'i symbolTable" where
  "copy_to_curBufPool st ofs src =
     (if bufPools st = [] then st
      else st\<lparr>bufPools := butlast (bufPools st) @
                  [take ofs (curBufPool st) @ src @ drop (ofs + length src) (curBufPool st)]\<rparr>)"

text \<open>
  \<open>allocAndBindToID\<close> from "At this point we know [hash] will be the destination
  element" on.
\<close>

definition allocAndBindToID_store ::
  "'i symbolTable \<Rightarrow> byte list \<Rightarrow> ID \<Rightarrow> 64 word \<Rightarrow> failure + (kvEntry \<times> 'i symbolTable)" where
  "allocAndBindToID_store st buf bindID hash =
     (let kvlen = int32 (int (length buf)) in
      case allocAndBindToID_grow st kvlen of
        Inl e \<Rightarrow> Inl e
      | Inr st1 \<Rightarrow>
          (let kv = \<lparr>symID = bindID, poolIdx = curBufPoolIdx st1,
                     poolOfs = curBufPoolSz st1, len = kvlen\<rparr> in
           case slice (curBufPool st1) (poolOfs kv) (int32 (poolOfs kv + len kv)) of
             Inl e \<Rightarrow> Inl e
           | Inr dst \<Rightarrow>
               (let st2 = copy_to_curBufPool st1 (nat (poolOfs kv))
                            (take (min (length dst) (length buf)) buf);
                    st3 = st2\<lparr>curBufPoolSz := int32 (curBufPoolSz st2 + len kv)\<rparr>;
                    st4 = st3\<lparr>valueCache := (valueCache st3)(hash \<mapsto> kv)\<rparr>;
                    st5 = st4\<lparr>tokenCache := (tokenCache st4)(symID kv \<mapsto> kv)\<rparr>
                in Inr (kv, st5))))"

definition allocAndBindToID ::
  "(byte list \<Rightarrow> 64 word) \<Rightarrow> 'i symbolTable \<Rightarrow> byte list \<Rightarrow> ID
     \<Rightarrow> (failure + (kvEntry \<times> 'i symbolTable)) option" where
  "allocAndBindToID H st buf bindID =
     (case allocAndBindToID_loop st buf (H buf) of
        None \<Rightarrow> None
      | Some (Inl e) \<Rightarrow> Some (Inl e)
      | Some (Inr (hash, found)) \<Rightarrow>
          (case found of
             Some kv \<Rightarrow>
               if symID kv = bindID then Some (Inr (kv, st))
               else Some (allocAndBindToID_store st buf bindID hash)
           | None \<Rightarrow> Some (allocAndBindToID_store st buf bindID hash)))"

text \<open>The keys of the two indexes, as \<open>getsetValueIDPair\<close> and \<open>LookupID\<close> build them.\<close>

definition valKey :: "'i symbolTable \<Rightarrow> byte list \<Rightarrow> byte list" where
  "valKey st val = [DbKeyPrefix (opts st), 0xFF, xValueIndex] @ val"

definition idKey :: "'i symbolTable \<Rightarrow> ID \<Rightarrow> byte list" where
  "idKey st sid = WriteTo sid [DbKeyPrefix (opts st)]"

text \<open>
  The transaction of \<open>getsetValueIDPair\<close> on an attached store \<open>d\<close> (the
  \<open>else\<close> branch of \<open>if st.db == nil\<close>): the effective ID and the table with the
  store after the transaction.  A failing issuer ends in \<open>panic(err)\<close>; an error of
  \<open>txn.Set\<close> or \<open>txn.Commit\<close> does not, as the \<open>err\<close> it is assigned to is
  the one declared in the loop body.
\<close>

definition getsetValueIDPair_txn ::
  "('i \<Rightarrow> (ID \<times> bool) \<times> 'i) \<Rightarrow> 'i symbolTable \<Rightarrow> DB \<Rightarrow> byte list \<Rightarrow> ID \<Rightarrow> bool
     \<Rightarrow> failure + (ID \<times> 'i symbolTable)" where
  "getsetValueIDPair_txn I st d val symID0 mapID =
     (case (if symID0 = 0 \<or> \<not> mapID
            then (case items d (valKey st val) of
                    None \<Rightarrow> Inr 0
                  | Some buf \<Rightarrow>
                      if length buf = IDSz
                      then (case ReadFrom buf of Inl e \<Rightarrow> Inl e | Inr (i, n) \<Rightarrow> Inr i)
                      else Inr 0)
            else Inr 0) of
        Inl e \<Rightarrow> Inl e
      | Inr existingID \<Rightarrow>
          (let (sid, reassignID, reassignVal, err, st1) =
                 (if symID0 = 0 then
                    (if existingID \<noteq> 0 then (existingID, False, False, False, st)
                     else if mapID then
                       (let ((i, e), iss) = I (Issuer (opts st));
                            st' = st\<lparr>opts := (opts st)\<lparr>Issuer := iss\<rparr>\<rparr>
                        in if e then (i, False, False, True, st') else (i, True, True, False, st'))
                     else (symID0, False, False, False, st))
                  else
                    (if existingID = 0 then (symID0, True, True, False, st)
                     else if symID0 \<noteq> existingID then
                       (if mapID then (existingID, True, True, False, st)
                        else (symID0, False, True, False, st))
                     else (symID0, False, False, False, st)))
           in if err then Inl IssuerError
              else if reassignID \<or> reassignVal then
                (let fwd = (valKey st1 val, drop 1 (idKey st1 sid));
                     sets = (if reassignID then [fwd, (idKey st1 sid, val)] else [fwd])
                 in Inr (sid, st1\<lparr>db := Some (Commit d sets)\<rparr>))
              else Inr (sid, st1)))"

definition getsetValueIDPair ::
  "(byte list \<Rightarrow> 64 word) \<Rightarrow> ('i \<Rightarrow> (ID \<times> bool) \<times> 'i) \<Rightarrow> 'i symbolTable \<Rightarrow> byte list \<Rightarrow> ID \<Rightarrow> bool
     \<Rightarrow> (failure + (ID \<times> 'i symbolTable)) option" where
  "getsetValueIDPair H I st val symID0 mapID =
     (case (case db st of
              None \<Rightarrow>
                if symID0 = 0 \<and> mapID
                then (let ((i, e), iss) = I (Issuer (opts st))
                      in Inr (i, st\<lparr>opts := (opts st)\<lparr>Issuer := iss\<rparr>\<rparr>))
                else Inr (symID0, st)
            | Some d \<Rightarrow> getsetValueIDPair_txn I st d val symID0 mapID) of
        Inl e \<Rightarrow> Some (Inl e)
      | Inr (sid, st1) \<Rightarrow>
          if sid \<noteq> 0
          then (case allocAndBindToID H st1 val sid of
                  None \<Rightarrow> None
                | Some (Inl e) \<Rightarrow> Some (Inl e)
                | Some (Inr (kv, st2)) \<Rightarrow> Some (Inr (sid, st2)))
          else Some (Inr (sid, st1)))"

definition GetSymbolID ::
  "(byte list \<Rightarrow> 64 word) \<Rightarrow> ('i \<Rightarrow> (ID \<times> bool) \<times> 'i) \<Rightarrow> 'i symbolTable \<Rightarrow> byte list \<Rightarrow> bool
     \<Rightarrow> (failure + (ID \<times> 'i symbolTable)) option" where
  "GetSymbolID H I st val autoIssue =
     (case getIDFromCache H st val of
        None \<Rightarrow> None
      | Some (Inl e) \<Rightarrow> Some (Inl e)
      | Some (Inr sid) \<Rightarrow>
          if sid \<noteq> 0 then Some (Inr (sid, st))
          else getsetValueIDPair H I st val 0 autoIssue)"

definition SetSymbolID ::
  "(byte list \<Rightarrow> 64 word) \<Rightarrow> ('i \<Rightarrow> (ID \<times> bool) \<times> 'i) \<Rightarrow> 'i symbolTable \<Rightarrow> byte list \<Rightarrow> ID
     \<Rightarrow> (failure + (ID \<times> 'i symbolTable)) option" where
  "SetSymbolID H I st val sid = getsetValueIDPair H I st val sid (sid = 0)"

text \<open>
  \<open>LookupID\<close>: the bytes (\<open>None\<close> for nil) and the table, whose caches a read from
  the store extends.
\<close>

definition LookupID ::
  "(byte list \<Rightarrow> 64 word) \<Rightarrow> 'i symbolTable \<Rightarrow> ID
     \<Rightarrow> (failure + (byte list option \<times> 'i symbolTable)) option" where
  "LookupID H st sid =
     (if sid = 0 then Some (Inr (None, st))
      else case tokenCache st sid of
             Some kv \<Rightarrow>
               (case bufForEntry st kv of Inl e \<Rightarrow> Some (Inl e) | Inr r \<Rightarrow> Some (Inr (r, st)))
           | None \<Rightarrow>
               (case db st of
                  None \<Rightarrow> Some (Inr (None, st))
                | Some d \<Rightarrow>
                    (case items d (idKey st sid) of
                       None \<Rightarrow> Some (Inr (None, st))
                     | Some val \<Rightarrow>
                         (case allocAndBindToID H st val sid of
                            None \<Rightarrow> None
                          | Some (Inl e) \<Rightarrow> Some (Inl e)
                          | Some (Inr (kv, st1)) \<Rightarrow>
                              (case bufForEntry st1 kv of
                                 Inl e \<Rightarrow> Some (Inl e)
                               | Inr r \<Rightarrow> Some (Inr (r, st1)))))))"

section \<open>The embedding interface (archost-lib, src/unnamed/part_000)\<close>

text \<open>
  The C entry points work on two process-wide variables and call into the host, the
  lib service and the lib session, whose implementations are outside src/.  The
  model keeps the two variables and the list of calls made to those collaborators,
  oldest first; what a collaborator returns is a parameter of the entry point that
  calls it.  \<open>'sess\<close> is the session object, \<open>'msg\<close> an unmarshalled \<open>arc.Msg\<close>.
\<close>

text \<open>\<open>LibServiceOpts\<close> and \<open>DefaultLibServiceOpts\<close> (src/arc/lib_service).\<close>

record LibServiceOpts =
  ServiceURI :: string

definition DefaultLibServiceOpts :: LibServiceOpts where
  "DefaultLibServiceOpts = \<lparr>ServiceURI = ''lib''\<rparr>"

datatype 'msg hostcall =
    StartNewHost string string
  | StartService
  | NewLibSession
  | HostError
  | HostClose
  | EnqueueIncoming 'msg
  | DequeueOutgoing

text \<open>
  \<open>gLibService\<close> holds the service made by \<open>opts.NewLibService()\<close>, which stores
  its options.  \<open>StartNewHost\<close> records the \<open>CachePath\<close> and the \<open>StatePath\<close> of the
  host options.
\<close>

record ('sess, 'msg) libmain =
  gLibSession :: "'sess option"
  gLibService :: "LibServiceOpts option"
  calls :: "'msg hostcall list"

text \<open>
  \<open>Call_SessionBegin\<close>.  \<open>StartService_err\<close> tells whether \<open>StartService\<close> returns
  an error; \<open>NewLibSession_ret\<close> is the pair \<open>NewLibSession\<close> returns, the session
  and whether the error is non-nil.
\<close>

definition Call_SessionBegin ::
  "bool \<Rightarrow> 'sess option \<times> bool \<Rightarrow> ('sess, 'msg) libmain \<Rightarrow> string \<Rightarrow> string \<Rightarrow> string
     \<Rightarrow> int \<times> ('sess, 'msg) libmain" where
  "Call_SessionBegin StartService_err NewLibSession_ret g userID userDataPath sharedCachePath =
     (if gLibSession g \<noteq> None then (0, g)
      else
        (let g1 = g\<lparr>calls := calls g @ [StartNewHost sharedCachePath userDataPath]\<rparr>;
             g2 = g1\<lparr>gLibService := Some DefaultLibServiceOpts\<rparr>;
             g3 = g2\<lparr>calls := calls g2 @ [StartService]\<rparr>;
             (g4, err) =
               (if \<not> StartService_err
                then (g3\<lparr>gLibSession := fst NewLibSession_ret,
                         calls := calls g3 @ [NewLibSession]\<rparr>, snd NewLibSession_ret)
                else (g3, True))
         in if err then (0, g4\<lparr>calls := calls g4 @ [HostError, HostClose]\<rparr>)
            else (12345, g4)))"

text \<open>
  \<open>Call_PushMsg\<close>.  \<open>Unmarshal\<close> is \<open>arc.Msg.Unmarshal\<close> on a new message: the
  message, or \<open>None\<close> for an error, on which the code panics.  The error that
  \<open>EnqueueIncoming\<close> returns is dropped by the code.  \<open>EnqueueIncoming\<close> and
  \<open>DequeueOutgoing\<close> are blocking calls of the session; the model takes them to
  return.
\<close>

definition Call_PushMsg ::
  "(byte list \<Rightarrow> 'msg option) \<Rightarrow> ('sess, 'msg) libmain \<Rightarrow> byte list
     \<Rightarrow> failure + int \<times> ('sess, 'msg) libmain" where
  "Call_PushMsg Unmarshal g msg_pb =
     (case gLibSession g of
        None \<Rightarrow> Inr (- 1, g)
      | Some sess \<Rightarrow>
          (case Unmarshal msg_pb of
             None \<Rightarrow> Inl UnmarshalError
           | Some msg \<Rightarrow> Inr (0, g\<lparr>calls := calls g @ [EnqueueIncoming msg]\<rparr>)))"

text \<open>
  \<open>Call_WaitOnMsg\<close>: the result, the content of \<open>*msg_pb\<close> afterwards and the
  variables.  \<open>dequeued\<close> is what \<open>DequeueOutgoing\<close> stores into \<open>*msg_pb\<close>.
\<close>

definition Call_WaitOnMsg ::
  "byte list \<Rightarrow> ('sess, 'msg) libmain \<Rightarrow> byte list \<Rightarrow> int \<times> byte list \<times> ('sess, 'msg) libmain" where
  "Call_WaitOnMsg dequeued g msg_pb =
     (case gLibSession g of
        None \<Rightarrow> (- 1, msg_pb, g)
      | Some sess \<Rightarrow> (0, dequeued, g\<lparr>calls := calls g @ [DequeueOutgoing]\<rparr>))"

section \<open>Instances for the examples\<close>

text \<open>
  A hash function and an issuer to run the operations with: the hash of a value is
  its length, and the issuer counts up from the last ID it gave and never fails.
\<close>

definition HashBuf_len :: "byte list \<Rightarrow> 64 word" where
  "HashBuf_len buf = of_nat (length buf)"

definition IssueNextID_counter :: "ID \<Rightarrow> (ID \<times> bool) \<times> ID" where
  "IssueNextID_counter n = ((n + 1, False), n + 1)"

text \<open>A hash function under which all values collide.\<close>

definition HashBuf_zero :: "byte list \<Rightarrow> 64 word" where
  "HashBuf_zero buf = 0"

text \<open>The ASCII bytes of "alpha" and "beta".\<close>

definition alpha :: "byte list" where
  "alpha = [0x61, 0x6C, 0x70, 0x68, 0x61]"

definition beta :: "byte list" where
  "beta = [0x62, 0x65, 0x74, 0x61]"

definition example_opts :: "ID TableOpts" where
  "example_opts = \<lparr>Issuer = 0, PoolSz = 16, DbKeyPrefix = 1\<rparr>"

text \<open>
  An empty store that takes every transaction, and one that turns every transaction
  down.
\<close>

definition empty_store :: DB where
  "empty_store = \<lparr>items = Map.empty, refuses = (\<lambda>sets. False)\<rparr>"

definition refusing_store :: DB where
  "refusing_store = \<lparr>items = Map.empty, refuses = (\<lambda>sets. True)\<rparr>"

text \<open>A new table on an empty store, on the refusing store, and without a store.\<close>

definition db_table :: "ID symbolTable" where
  "db_table = openTable (Some empty_store) example_opts"

definition refused_table :: "ID symbolTable" where
  "refused_table = openTable (Some refusing_store) example_opts"

definition memory_table :: "ID symbolTable" where
  "memory_table = openTable None example_opts"

text \<open>
  A store that holds the forward entry of "alpha", bound to the ID 5, and a table
  opened on it.
\<close>

definition bound_store :: DB where
  "bound_store =
     empty_store\<lparr>items := [[1, 0xFF, 0xFE, 0x61, 0x6C, 0x70, 0x68, 0x61] \<mapsto> [0, 0, 0, 0, 5]]\<rparr>"

definition bound_table :: "ID symbolTable" where
  "bound_table = openTable (Some bound_store) example_opts"

text \<open>
  The store that \<open>SetSymbolID("alpha", 7)\<close> leaves behind, with the forward entry
  of "alpha" and the reverse entry of 7, and a table opened on it.
\<close>

definition reopened_store :: DB where
  "reopened_store =
     empty_store\<lparr>items :=
       [[1, 0xFF, 0xFE, 0x61, 0x6C, 0x70, 0x68, 0x61] \<mapsto> [0, 0, 0, 0, 7],
        [1, 0, 0, 0, 0, 7] \<mapsto> [0x61, 0x6C, 0x70, 0x68, 0x61]]\<rparr>"

definition reopened_table :: "ID symbolTable" where
  "reopened_table = openTable (Some reopened_store) example_opts"

text \<open>An issuer that fails: it returns the zero ID and an error.\<close>

definition IssueNextID_failing :: "ID \<Rightarrow> (ID \<times> bool) \<times> ID" where
  "IssueNextID_failing n = ((0, True), n)"

text \<open>
  An unmarshaller for the examples: it rejects the input \<open>[0x80]\<close> (a varint cut
  short) and takes any other input as the message itself.
\<close>

definition Unmarshal_example :: "byte list \<Rightarrow> byte list option" where
  "Unmarshal_example b = (if b = [0x80] then None else Some b)"

text \<open>The variables of the embedding with no session, and with the session \<open>s\<close>.\<close>

definition no_session :: "(nat, byte list) libmain" where
  "no_session = \<lparr>gLibSession = None, gLibService = None, calls = []\<rparr>"

definition in_session :: "(nat, byte list) libmain" where
  "in_session =
     \<lparr>gLibSession = Some 1, gLibService = Some DefaultLibServiceOpts,
      calls = [StartNewHost ''cache'' ''data'', StartService, NewLibSession]\<rparr>"

section \<open>Sequences of calls on the table\<close>

text \<open>\<open>after m f\<close> runs \<open>f\<close> on what \<open>m\<close> returned.\<close>

definition after ::
  "(failure + 'a \<times> 's) option \<Rightarrow> ('a \<Rightarrow> 's \<Rightarrow> (failure + 'b \<times> 's) option) \<Rightarrow> (failure + 'b \<times> 's) option" where
  "after m f =
     (case m of None \<Rightarrow> None | Some (Inl e) \<Rightarrow> Some (Inl e) | Some (Inr (r, st)) \<Rightarrow> f r st)"

text \<open>\<open>times n f st\<close> makes the call \<open>f\<close> \<open>n\<close> times in a row and collects what it returned.\<close>

fun times :: "nat \<Rightarrow> ('s \<Rightarrow> (failure + 'a \<times> 's) option) \<Rightarrow> 's \<Rightarrow> (failure + 'a list \<times> 's) option" where
  "times 0 f st = Some (Inr ([], st))"
| "times (Suc n) f st =
     after (f st) (\<lambda>x st1. after (times n f st1) (\<lambda>xs st2. Some (Inr (x # xs, st2))))"

text \<open>What a call returned, the panic it ended in, and what the store holds under a key after it.\<close>

definition result_of :: "(failure + 'a \<times> 's) option \<Rightarrow> 'a option" where
  "result_of m = (case m of Some (Inr (r, st)) \<Rightarrow> Some r | _ \<Rightarrow> None)"

definition failure_of :: "(failure + 'a \<times> 's) option \<Rightarrow> failure option" where
  "failure_of m = (case m of Some (Inl e) \<Rightarrow> Some e | _ \<Rightarrow> None)"

definition stored_under ::
  "(failure + 'a \<times> 'i symbolTable) option \<Rightarrow> byte list \<Rightarrow> byte list option" where
  "stored_under m k =
     (case m of
        Some (Inr (r, st)) \<Rightarrow> (case db st of Some d \<Rightarrow> items d k | None \<Rightarrow> None)
      | _ \<Rightarrow> None)"

text \<open>
  A call of one of the three operations of the table, what it answers, and the call
  made on a table.
\<close>

datatype call =
    Get_call "byte list" bool
  | Set_call "byte list" ID
  | Lookup_call ID

datatype answer =
    GaveID ID
  | GaveValue "byte list option"

definition do_call ::
  "(byte list \<Rightarrow> 64 word) \<Rightarrow> ('i \<Rightarrow> (ID \<times> bool) \<times> 'i) \<Rightarrow> 'i symbolTable \<Rightarrow> call
     \<Rightarrow> (failure + answer \<times> 'i symbolTable) option" where
  "do_call H I st c =
     (case c of
        Get_call w a \<Rightarrow> after (GetSymbolID H I st w a) (\<lambda>r s. Some (Inr (GaveID r, s)))
      | Set_call w sid \<Rightarrow> after (SetSymbolID H I st w sid) (\<lambda>r s. Some (Inr (GaveID r, s)))
      | Lookup_call sid \<Rightarrow> after (LookupID H st sid) (\<lambda>r s. Some (Inr (GaveValue r, s))))"

text \<open>
  Scenario E of the spec: two \<open>SetSymbolID\<close> calls with the same ID, then the three
  queries; the result is what the queries returned.
\<close>

definition scenario_E ::
  "(byte list \<Rightarrow> 64 word) \<Rightarrow> ('i \<Rightarrow> (ID \<times> bool) \<times> 'i) \<Rightarrow> 'i symbolTable
     \<Rightarrow> (failure + (byte list option \<times> ID \<times> ID) \<times> 'i symbolTable) option" where
  "scenario_E H I st =
     after (SetSymbolID H I st alpha 7) (\<lambda>r1 st1.
     after (SetSymbolID H I st1 beta 7) (\<lambda>r2 st2.
     after (LookupID H st2 7) (\<lambda>looked st3.
     after (GetSymbolID H I st3 alpha False) (\<lambda>a st4.
     after (GetSymbolID H I st4 beta False) (\<lambda>b st5.
     Some (Inr ((looked, a, b), st5)))))))"

text \<open>The table after the two \<open>SetSymbolID\<close> calls of scenario E.\<close>

definition rebound_table ::
  "(byte list \<Rightarrow> 64 word) \<Rightarrow> ('i \<Rightarrow> (ID \<times> bool) \<times> 'i) \<Rightarrow> 'i symbolTable
     \<Rightarrow> (failure + ID \<times> 'i symbolTable) option" where
  "rebound_table H I st =
     after (SetSymbolID H I st alpha 7) (\<lambda>r1 st1. SetSymbolID H I st1 beta 7)"

section \<open>Predicates on tables\<close>

text \<open>
  \<open>probes st buf h h'\<close>: the probing loops, entered at slot \<open>h\<close> for \<open>buf\<close>, pass
  over taken slots whose entries differ from \<open>buf\<close> and reach slot \<open>h'\<close>.
  \<open>stops_at\<close>: the loops end at a slot, on a free slot (\<open>None\<close>) or on an entry
  that equals \<open>buf\<close>.
\<close>

inductive probes :: "'i symbolTable \<Rightarrow> byte list \<Rightarrow> 64 word \<Rightarrow> 64 word \<Rightarrow> bool" where
  probes_here: "probes st buf h h"
| probes_step: "valueCache st h = Some kv \<Longrightarrow> equals st kv buf = Inr False \<Longrightarrow> h \<noteq> h'
     \<Longrightarrow> probes st buf (h + 1) h' \<Longrightarrow> probes st buf h h'"

definition stops_at :: "'i symbolTable \<Rightarrow> byte list \<Rightarrow> 64 word \<Rightarrow> kvEntry option \<Rightarrow> bool" where
  "stops_at st buf h f =
     (case f of
        None \<Rightarrow> valueCache st h = None
      | Some kv \<Rightarrow> valueCache st h = Some kv \<and> equals st kv buf = Inr True)"

definition found_ID :: "kvEntry option \<Rightarrow> ID" where
  "found_ID f = (case f of None \<Rightarrow> 0 | Some kv \<Rightarrow> symID kv)"

text \<open>
  An entry lies in the arena: its pool exists and its bytes are inside the pool,
  inside the used part if the pool is the current one, and below \<open>2 ^ 31\<close>.
\<close>

definition entry_in :: "'i symbolTable \<Rightarrow> kvEntry \<Rightarrow> bool" where
  "entry_in st kv \<longleftrightarrow>
     0 \<le> poolIdx kv \<and> poolIdx kv < int (length (bufPools st)) \<and>
     0 \<le> poolOfs kv \<and> 0 \<le> len kv \<and> poolOfs kv + len kv < 2147483648 \<and>
     poolOfs kv + len kv \<le> int (length (bufPools st ! nat (poolIdx kv))) \<and>
     (poolIdx kv = int (length (bufPools st)) - 1 \<longrightarrow> poolOfs kv + len kv \<le> curBufPoolSz st)"

definition entry_bytes :: "'i symbolTable \<Rightarrow> kvEntry \<Rightarrow> byte list" where
  "entry_bytes st kv =
     take (nat (len kv)) (drop (nat (poolOfs kv)) (bufPools st ! nat (poolIdx kv)))"

text \<open>The bookkeeping of the current pool.\<close>

definition pools_ok :: "'i symbolTable \<Rightarrow> bool" where
  "pools_ok st \<longleftrightarrow>
     curBufPoolIdx st = int (length (bufPools st)) - 1 \<and>
     0 \<le> curBufPoolSz st \<and> curBufPoolSz st \<le> int (length (curBufPool st))"

text \<open>
  \<open>comparable st buf\<close>: every entry of the value cache that has the length of
  \<open>buf\<close> lies in the arena, so that \<open>equals\<close> can compare it with \<open>buf\<close> (an
  entry of another length is told apart by its length alone).
\<close>

definition comparable :: "'i symbolTable \<Rightarrow> byte list \<Rightarrow> bool" where
  "comparable st buf \<longleftrightarrow>
     (\<forall>h kv. valueCache st h = Some kv \<longrightarrow> len kv = int (length buf) \<longrightarrow> entry_in st kv)"

text \<open>
  \<open>token_holds st x v\<close>: the token cache has an entry for the ID \<open>x\<close> that lies in
  the arena and holds the bytes \<open>v\<close>.  \<open>tokens_agree_on st v\<close>: every entry of the
  value cache that equals \<open>v\<close> and carries a non-zero ID has such an entry under its
  ID.  \<open>cached_under st buf x\<close>: some entry of the value cache equals \<open>buf\<close> and
  carries the ID \<open>x\<close>.
\<close>

definition token_holds :: "'i symbolTable \<Rightarrow> ID \<Rightarrow> byte list \<Rightarrow> bool" where
  "token_holds st x v \<longleftrightarrow>
     (\<exists>kv. tokenCache st x = Some kv \<and> symID kv \<noteq> 0 \<and> entry_in st kv \<and> entry_bytes st kv = v)"

definition tokens_agree_on :: "'i symbolTable \<Rightarrow> byte list \<Rightarrow> bool" where
  "tokens_agree_on st v \<longleftrightarrow>
     (\<forall>h kv. valueCache st h = Some kv \<longrightarrow> symID kv \<noteq> 0 \<longrightarrow> equals st kv v = Inr True
        \<longrightarrow> token_holds st (symID kv) v)"

definition cached_under :: "'i symbolTable \<Rightarrow> byte list \<Rightarrow> ID \<Rightarrow> bool" where
  "cached_under st buf x \<longleftrightarrow>
     (\<exists>h kv. valueCache st h = Some kv \<and> symID kv = x \<and> equals st kv buf = Inr True)"

text \<open>
  The \<open>int32\<close> sums of \<open>allocAndBindToID\<close> stay in range for \<open>buf\<close>: the bytes
  used in the current pool plus the new ones, and one more pool.
\<close>

definition fits :: "'i symbolTable \<Rightarrow> byte list \<Rightarrow> bool" where
  "fits st buf \<longleftrightarrow>
     curBufPoolSz st + int (length buf) < 2147483648 \<and> int (length (bufPools st)) < 2147483647"

text \<open>Two tables with the same caches and the same arena (they may differ in the store and the issuer).\<close>

definition same_arena :: "'i symbolTable \<Rightarrow> 'i symbolTable \<Rightarrow> bool" where
  "same_arena a b \<longleftrightarrow>
     valueCache a = valueCache b \<and> tokenCache a = tokenCache b \<and> bufPools a = bufPools b \<and>
     curBufPoolSz a = curBufPoolSz b \<and> curBufPoolIdx a = curBufPoolIdx b \<and>
     PoolSz (opts a) = PoolSz (opts b) \<and> DbKeyPrefix (opts a) = DbKeyPrefix (opts b)"

text \<open>
  What \<open>allocAndBindToID\<close> stores for \<open>buf\<close> when the sums stay in range: the entry,
  the pools and the table.
\<close>

definition stored_entry :: "'i symbolTable \<Rightarrow> byte list \<Rightarrow> ID \<Rightarrow> kvEntry" where
  "stored_entry st buf bindID =
     (if curBufPoolSz st + int (length buf) > int (length (curBufPool st))
      then \<lparr>symID = bindID, poolIdx = int (length (bufPools st)), poolOfs = 0,
            len = int (length buf)\<rparr>
      else \<lparr>symID = bindID, poolIdx = curBufPoolIdx st, poolOfs = curBufPoolSz st,
            len = int (length buf)\<rparr>)"

definition stored_pools :: "'i symbolTable \<Rightarrow> byte list \<Rightarrow> byte list list" where
  "stored_pools st buf =
     (if curBufPoolSz st + int (length buf) > int (length (curBufPool st))
      then bufPools st @
             [buf @ replicate (nat (max_int32 (PoolSz (opts st)) (int (length buf))) - length buf) 0]
      else if bufPools st = [] then []
      else butlast (bufPools st) @
             [take (nat (curBufPoolSz st)) (curBufPool st) @ buf @
              drop (nat (curBufPoolSz st) + length buf) (curBufPool st)])"

definition stored_table :: "'i symbolTable \<Rightarrow> byte list \<Rightarrow> ID \<Rightarrow> 64 word \<Rightarrow> 'i symbolTable" where
  "stored_table st buf bindID hash =
     st\<lparr>curBufPoolSz := (if curBufPoolSz st + int (length buf) > int (length (curBufPool st))
                          then int (length buf) else curBufPoolSz st + int (length buf)),
        curBufPoolIdx := (if curBufPoolSz st + int (length buf) > int (length (curBufPool st))
                          then int (length (bufPools st)) else curBufPoolIdx st),
        bufPools := stored_pools st buf,
        valueCache := (valueCache st)(hash \<mapsto> stored_entry st buf bindID),
        tokenCache := (tokenCache st)(bindID \<mapsto> stored_entry st buf bindID)\<rparr>"

text \<open>
  Calls made later.  \<open>copied st c\<close> is the value that the call \<open>c\<close> may copy into
  the arena of \<open>st\<close>, and \<open>room_for\<close> tells that this value fits.  \<open>keeps x v c r\<close>:
  the call \<open>c\<close>, answering \<open>r\<close>, did not give the ID \<open>x\<close> to a value other than
  \<open>v\<close>.  \<open>later H I x v st st'\<close>: the table \<open>st'\<close> comes from \<open>st\<close> by any number
  of calls that returned, had room, and kept \<open>x\<close> for \<open>v\<close>.
\<close>

definition copied :: "'i symbolTable \<Rightarrow> call \<Rightarrow> byte list option" where
  "copied st c =
     (case c of
        Get_call w a \<Rightarrow> Some w
      | Set_call w sid \<Rightarrow> Some w
      | Lookup_call sid \<Rightarrow> (case db st of None \<Rightarrow> None | Some d \<Rightarrow> items d (idKey st sid)))"

definition room_for :: "'i symbolTable \<Rightarrow> call \<Rightarrow> bool" where
  "room_for st c = (case copied st c of None \<Rightarrow> True | Some w \<Rightarrow> fits st w)"

definition keeps :: "ID \<Rightarrow> byte list \<Rightarrow> call \<Rightarrow> answer \<Rightarrow> bool" where
  "keeps x v c r =
     (case c of
        Get_call w a \<Rightarrow> r = GaveID x \<longrightarrow> w = v
      | Set_call w sid \<Rightarrow> r = GaveID x \<longrightarrow> w = v
      | Lookup_call sid \<Rightarrow> True)"

inductive later ::
  "(byte list \<Rightarrow> 64 word) \<Rightarrow> ('i \<Rightarrow> (ID \<times> bool) \<times> 'i) \<Rightarrow> ID \<Rightarrow> byte list
     \<Rightarrow> 'i symbolTable \<Rightarrow> 'i symbolTable \<Rightarrow> bool"
  for H I x v where
  later_now: "later H I x v st st"
| later_call: "later H I x v st st1 \<Longrightarrow> do_call H I st1 c = Some (Inr (r, st2)) \<Longrightarrow> room_for st1 c
     \<Longrightarrow> keeps x v c r \<Longrightarrow> later H I x v st st2"

text \<open>
  \<open>built H I st\<close>: the table \<open>st\<close> comes from a new table by any number of calls
  that returned and had room.
\<close>

inductive built ::
  "(byte list \<Rightarrow> 64 word) \<Rightarrow> ('i \<Rightarrow> (ID \<times> bool) \<times> 'i) \<Rightarrow> 'i symbolTable \<Rightarrow> bool"
  for H I where
  built_new: "built H I (openTable d os)"
| built_call: "built H I st \<Longrightarrow> do_call H I st c = Some (Inr (r, st')) \<Longrightarrow> room_for st c
     \<Longrightarrow> built H I st'"

section \<open>Serialization of symbol IDs\<close>

lemma high_bits_clear:
  fixes sid :: ID
  assumes "sid < 2 ^ 40" and "40 \<le> n"
  shows "\<not> bit sid n"
proof -
  have "sid AND mask 40 = sid"
    using assms(1) by (rule less_mask_eq)
  then have "bit sid n = bit (sid AND mask 40) n"
    by simp
  then show ?thesis
    using assms(2) by (simp add: bit_and_iff bit_mask_iff)
qed

lemma join_split_bytes:
  fixes sid :: ID
  assumes "sid < 2 ^ 40"
  shows "push_bit 32 (ucast (ucast (drop_bit 32 sid) :: byte)) OR
         push_bit 24 (ucast (ucast (drop_bit 24 sid) :: byte)) OR
         push_bit 16 (ucast (ucast (drop_bit 16 sid) :: byte)) OR
         push_bit 8 (ucast (ucast (drop_bit 8 sid) :: byte)) OR
         ucast (ucast sid :: byte) = sid"
    (is "?w = sid")
proof (rule bit_word_eqI)
  fix n :: nat
  assume "n < LENGTH(64)"
  consider "n < 8" | "8 \<le> n" "n < 16" | "16 \<le> n" "n < 24" | "24 \<le> n" "n < 32"
    | "32 \<le> n" "n < 40" | "40 \<le> n"
    by linarith
  then show "bit ?w n = bit sid n"
  proof cases
    case 6
    then show ?thesis
      using high_bits_clear [OF assms, of n] by (simp add: bit_simps)
  qed (auto simp add: bit_simps)
qed

lemma unat_low_byte: "unat (ucast (w :: ID) :: byte) = unat w mod 256"
  by (simp add: unsigned_ucast_eq take_bit_eq_mod)

lemma unat_drop_bit_div: "unat (drop_bit k (w :: ID)) = unat w div 2 ^ k"
  using unat_drop_bit_eq [of k w] by (simp add: drop_bit_nat_def)

lemma digits_256_linear:
  "x = 4294967296 * a + m1 \<Longrightarrow> m1 = 16777216 * b + m2 \<Longrightarrow> m2 = 65536 * c + m3
   \<Longrightarrow> m3 = 256 * d + e
   \<Longrightarrow> (((a * 256 + b) * 256 + c) * 256 + d) * 256 + e = (x::nat)"
  by simp

lemma digits_256:
  assumes "(x::nat) < 2 ^ 40"
  shows "((((x div 2 ^ 32 mod 256) * 256 + x div 2 ^ 24 mod 256) * 256
            + x div 2 ^ 16 mod 256) * 256 + x div 2 ^ 8 mod 256) * 256 + x mod 256 = x"
proof -
  have e0: "x mod 1099511627776 = x"
    using assms by simp
  have e1: "x mod 1099511627776 = 4294967296 * (x div 4294967296 mod 256) + x mod 4294967296"
    using mod_mult2_eq [of x 4294967296 256] by simp
  have e2: "x mod 4294967296 = 16777216 * (x div 16777216 mod 256) + x mod 16777216"
    using mod_mult2_eq [of x 16777216 256] by simp
  have e3: "x mod 16777216 = 65536 * (x div 65536 mod 256) + x mod 65536"
    using mod_mult2_eq [of x 65536 256] by simp
  have e4: "x mod 65536 = 256 * (x div 256 mod 256) + x mod 256"
    using mod_mult2_eq [of x 256 256] by simp
  have "(((x div 4294967296 mod 256 * 256 + x div 16777216 mod 256) * 256
           + x div 65536 mod 256) * 256 + x div 256 mod 256) * 256 + x mod 256 = x"
    by (rule digits_256_linear [OF _ e2 e3 e4]) (use e0 e1 in simp)
  then show ?thesis
    by simp
qed

lemma big_endian_value_5:
  "foldl (\<lambda>acc b. acc * 256 + unat b) 0 (drop (length io) (io @ [b4, b3, b2, b1, b0 :: byte]))
     = (((unat b4 * 256 + unat b3) * 256 + unat b2) * 256 + unat b1) * 256 + unat b0"
  by simp

lemma WriteTo_big_endian:
  assumes "sid < 2 ^ 40"
  shows "foldl (\<lambda>acc b. acc * 256 + unat b) 0 (drop (length io) (WriteTo sid io)) = unat sid"
proof -
  have "unat sid < 2 ^ 40"
    using assms by (simp add: word_less_nat_alt)
  then show ?thesis
    using digits_256 [of "unat sid"]
    unfolding WriteTo_def big_endian_value_5 unat_low_byte unat_drop_bit_div by simp
qed

lemma ReadFrom_WriteTo:
  assumes "sid < 2 ^ 40"
  shows "ReadFrom (drop (length io) (WriteTo sid io)) = Inr (sid, IDSz)"
  using join_split_bytes [OF assms] by (simp add: WriteTo_def ReadFrom_def)

section \<open>The probing loops\<close>

lemma alloc_loop_probes_aux:
  "allocAndBindToID_loop st buf h = Some r \<Longrightarrow> r = Inr (h', f) \<Longrightarrow> probes st buf h h' \<and> stops_at st buf h' f"
proof (induction arbitrary: h' f rule: allocAndBindToID_loop.raw_induct [rotated 1, consumes 1])
  case (1 loop st buf h r)
  show ?case
  proof (cases "valueCache st h")
    case None
    with 1(2,3) show ?thesis by (auto simp: stops_at_def intro: probes.intros)
  next
    case (Some kv)
    show ?thesis
    proof (cases "equals st kv buf")
      case (Inl e)
      with Some 1(2,3) show ?thesis by simp
    next
      case (Inr eq)
      show ?thesis
      proof (cases eq)
        case True
        with Some Inr 1(2,3) have "h' = h" "f = Some kv" by simp_all
        with Some Inr True show ?thesis by (simp add: stops_at_def probes.probes_here)
      next
        case False
        with Some Inr 1(2) have r: "loop st buf (h + 1) = Some r" by simp
        from 1(1) [OF r 1(3)] have p: "probes st buf (h + 1) h'" and s: "stops_at st buf h' f" by auto
        have "h \<noteq> h'"
        proof
          assume "h = h'"
          with s Some have "equals st kv buf = Inr True" by (auto simp: stops_at_def split: option.splits)
          with Inr False show False by simp
        qed
        with Some Inr False p s show ?thesis by (auto intro: probes.intros)
      qed
    qed
  qed
qed

lemma alloc_loop_probes:
  "allocAndBindToID_loop st buf h = Some (Inr (h', f)) \<Longrightarrow> probes st buf h h' \<and> stops_at st buf h' f"
  by (rule alloc_loop_probes_aux [OF _ refl])

lemma get_loop_probes_aux:
  "getIDFromCache_loop st buf h = Some r \<Longrightarrow> r = Inr i
     \<Longrightarrow> \<exists>h' f. probes st buf h h' \<and> stops_at st buf h' f \<and> i = found_ID f"
proof (induction arbitrary: i rule: getIDFromCache_loop.raw_induct [rotated 1, consumes 1])
  case (1 loop st buf h r)
  show ?case
  proof (cases "valueCache st h")
    case None
    with 1(2,3) have "probes st buf h h \<and> stops_at st buf h None \<and> i = found_ID None"
      by (auto simp: stops_at_def found_ID_def intro: probes.intros)
    then show ?thesis by blast
  next
    case (Some kv)
    show ?thesis
    proof (cases "equals st kv buf")
      case (Inl e)
      with Some 1(2,3) show ?thesis by simp
    next
      case (Inr eq)
      show ?thesis
      proof (cases eq)
        case True
        with Some Inr 1(2,3) have "probes st buf h h \<and> stops_at st buf h (Some kv) \<and> i = found_ID (Some kv)"
          by (auto simp: stops_at_def found_ID_def intro: probes.intros)
        then show ?thesis by blast
      next
        case False
        with Some Inr 1(2) have r: "loop st buf (h + 1) = Some r" by simp
        from 1(1) [OF r 1(3)] obtain h' f where p: "probes st buf (h + 1) h'" and s: "stops_at st buf h' f"
          and i: "i = found_ID f" by blast
        have "h \<noteq> h'"
        proof
          assume "h = h'"
          with s Some have "equals st kv buf = Inr True" by (auto simp: stops_at_def split: option.splits)
          with Inr False show False by simp
        qed
        with Some Inr False p have "probes st buf h h'" by (auto intro: probes.intros)
        with s i show ?thesis by blast
      qed
    qed
  qed
qed

lemma get_loop_probes:
  "getIDFromCache_loop st buf h = Some (Inr i)
     \<Longrightarrow> \<exists>h' f. probes st buf h h' \<and> stops_at st buf h' f \<and> i = found_ID f"
  by (rule get_loop_probes_aux [OF _ refl])

lemma probes_alloc_loop:
  "probes st buf h h' \<Longrightarrow> stops_at st buf h' f \<Longrightarrow> allocAndBindToID_loop st buf h = Some (Inr (h', f))"
proof (induction rule: probes.induct)
  case (probes_here st buf h)
  then show ?case
    by (subst allocAndBindToID_loop.simps) (auto simp: stops_at_def split: option.splits)
next
  case (probes_step st h kv buf h')
  then show ?case
    by (subst allocAndBindToID_loop.simps) simp
qed

lemma probes_get_loop:
  "probes st buf h h' \<Longrightarrow> stops_at st buf h' f \<Longrightarrow> getIDFromCache_loop st buf h = Some (Inr (found_ID f))"
proof (induction rule: probes.induct)
  case (probes_here st buf h)
  then show ?case
    by (subst getIDFromCache_loop.simps) (auto simp: stops_at_def found_ID_def split: option.splits)
next
  case (probes_step st h kv buf h')
  then show ?case
    by (subst getIDFromCache_loop.simps) simp
qed

lemma probes_frame:
  assumes "probes st buf h h'"
    and "\<And>slot kv. slot \<noteq> h' \<Longrightarrow> valueCache st slot = Some kv \<Longrightarrow> equals st kv buf = Inr False
           \<Longrightarrow> \<exists>kv'. valueCache st' slot = Some kv' \<and> equals st' kv' buf = Inr False"
  shows "probes st' buf h h'"
  using assms
proof (induction rule: probes.induct)
  case (probes_here st buf h)
  show ?case by (rule probes.probes_here)
next
  case (probes_step st h kv buf h')
  from probes_step.prems [OF probes_step.hyps(3) probes_step.hyps(1) probes_step.hyps(2)]
  obtain kv' where "valueCache st' h = Some kv'" "equals st' kv' buf = Inr False"
    by blast
  moreover note probes_step.hyps(3)
  moreover have "probes st' buf (h + 1) h'"
    using probes_step.IH probes_step.prems by blast
  ultimately show ?case
    by (rule probes.probes_step)
qed

text \<open>
  The loops end when a slot of the value cache is free: probing from any slot comes to
  a slot to stop at, as long as \<open>equals\<close> does not panic on the entries it meets.
\<close>

lemma unat_minus_succ:
  fixes s h :: "64 word"
  assumes "unat (s - h) = Suc n"
  shows "unat (s - (h + 1)) = n"
proof -
  from assms have "s - h \<noteq> 0"
    by (auto simp: unat_eq_zero [symmetric] simp del: unat_eq_zero)
  then have "unat (s - h - 1) = unat (s - h) - 1"
    by (rule unat_minus_one)
  moreover have "s - (h + 1) = s - h - 1"
    by simp
  ultimately have "unat (s - (h + 1)) = unat (s - h) - 1"
    by (simp only:)
  with assms show ?thesis
    by simp
qed

lemma probes_exist_aux:
  assumes free: "valueCache st s = None"
    and cmp: "\<forall>h kv. valueCache st h = Some kv \<longrightarrow> (\<exists>b. equals st kv buf = Inr b)"
  shows "unat (s - h) = n \<Longrightarrow> \<exists>h' f. probes st buf h h' \<and> stops_at st buf h' f"
proof (induction n arbitrary: h)
  case 0
  then have "s = h"
    by (simp add: unat_eq_zero)
  with free have "probes st buf h h \<and> stops_at st buf h None"
    by (simp add: stops_at_def probes.probes_here)
  then show ?case
    by blast
next
  case (Suc n)
  show ?case
  proof (cases "valueCache st h")
    case None
    then have "probes st buf h h \<and> stops_at st buf h None"
      by (simp add: stops_at_def probes.probes_here)
    then show ?thesis
      by blast
  next
    case (Some kv)
    from cmp Some obtain b where b: "equals st kv buf = Inr b"
      by blast
    show ?thesis
    proof (cases b)
      case True
      with Some b have "probes st buf h h \<and> stops_at st buf h (Some kv)"
        by (simp add: stops_at_def probes.probes_here)
      then show ?thesis
        by blast
    next
      case False
      from Suc.IH [OF unat_minus_succ [OF Suc.prems]]
      obtain h' f where p: "probes st buf (h + 1) h'" and s: "stops_at st buf h' f"
        by blast
      have "h \<noteq> h'"
      proof
        assume "h = h'"
        with s Some have "equals st kv buf = Inr True"
          by (auto simp: stops_at_def split: option.splits)
        with b False show False
          by simp
      qed
      with Some b False p have "probes st buf h h'"
        by (auto intro: probes.probes_step)
      with s show ?thesis
        by blast
    qed
  qed
qed

lemma probes_exist:
  assumes "valueCache st s = None"
    and "\<forall>h kv. valueCache st h = Some kv \<longrightarrow> (\<exists>b. equals st kv buf = Inr b)"
  shows "\<exists>h' f. probes st buf h h' \<and> stops_at st buf h' f"
  by (rule probes_exist_aux [OF assms refl])

section \<open>Entries and pools\<close>

lemma int32_id: "- 2147483648 \<le> x \<Longrightarrow> x < 2147483648 \<Longrightarrow> int32 x = x"
  by (simp add: int32_def)

lemma equals_entry_in:
  assumes "entry_in st kv"
  shows "equals st kv buf = Inr (int32 (int (length buf)) = len kv \<and> entry_bytes st kv = buf)"
proof (cases "int32 (int (length buf)) = len kv")
  case False
  then show ?thesis by (simp add: equals_def)
next
  case True
  have "int32 (poolOfs kv + len kv) = poolOfs kv + len kv"
    using assms by (intro int32_id) (auto simp: entry_in_def)
  then show ?thesis
    using assms True by (simp add: equals_def index_pool_def slice_def entry_in_def entry_bytes_def)
qed

lemma bufForEntry_entry_in:
  assumes "entry_in st kv" and "symID kv \<noteq> 0"
  shows "bufForEntry st kv = Inr (Some (entry_bytes st kv))"
proof -
  have "int32 (poolOfs kv + len kv) = poolOfs kv + len kv"
    using assms by (intro int32_id) (auto simp: entry_in_def)
  then show ?thesis
    using assms by (simp add: bufForEntry_def index_pool_def slice_def entry_in_def entry_bytes_def)
qed

lemma grow_case:
  assumes ok: "pools_ok st" and fits: "fits st buf"
    and g: "curBufPoolSz st + int (length buf) > int (length (curBufPool st))"
  shows "allocAndBindToID_grow st (int (length buf)) =
           Inr (st\<lparr>curBufPoolSz := 0, curBufPoolIdx := int (length (bufPools st)),
                   bufPools := bufPools st @ [replicate (nat (max_int32 (PoolSz (opts st)) (int (length buf)))) 0]\<rparr>)"
proof -
  have n: "int32 (int (length buf)) = int (length buf)"
    using ok fits by (intro int32_id) (auto simp: pools_ok_def fits_def)
  have s: "int32 (curBufPoolSz st + int (length buf)) = curBufPoolSz st + int (length buf)"
    using ok fits by (intro int32_id) (auto simp: pools_ok_def fits_def)
  have i: "int32 (curBufPoolIdx st + 1) = int (length (bufPools st))"
    using ok fits by (simp add: pools_ok_def fits_def int32_id)
  have "0 \<le> max_int32 (PoolSz (opts st)) (int (length buf))"
    by (simp add: max_int32_def)
  then show ?thesis
    using g by (simp add: allocAndBindToID_grow_def s i Let_def)
qed

lemma no_grow_case:
  assumes ok: "pools_ok st" and fits: "fits st buf"
    and g: "\<not> curBufPoolSz st + int (length buf) > int (length (curBufPool st))"
  shows "allocAndBindToID_grow st (int (length buf)) = Inr st"
proof -
  have n: "int32 (int (length buf)) = int (length buf)"
    using ok fits by (intro int32_id) (auto simp: pools_ok_def fits_def)
  have s: "int32 (curBufPoolSz st + int (length buf)) = curBufPoolSz st + int (length buf)"
    using ok fits by (intro int32_id) (auto simp: pools_ok_def fits_def)
  show ?thesis
    using g by (simp add: allocAndBindToID_grow_def s)
qed

lemma slice_length: "slice xs lo hi = Inr s \<Longrightarrow> length s = nat (hi - lo)"
  by (auto simp: slice_def split: if_splits)

lemma slice_in_range: "0 \<le> lo \<Longrightarrow> lo \<le> hi \<Longrightarrow> hi \<le> int (length xs) \<Longrightarrow> \<exists>s. slice xs lo hi = Inr s"
  by (simp add: slice_def)

lemma store_eq:
  assumes ok: "pools_ok st" and fits: "fits st buf"
  shows "allocAndBindToID_store st buf bindID hash =
           Inr (stored_entry st buf bindID, stored_table st buf bindID hash)"
proof -
  have n: "int32 (int (length buf)) = int (length buf)"
    using ok fits by (intro int32_id) (auto simp: pools_ok_def fits_def)
  have s: "int32 (curBufPoolSz st + int (length buf)) = curBufPoolSz st + int (length buf)"
    using ok fits by (intro int32_id) (auto simp: pools_ok_def fits_def)
  show ?thesis
  proof (cases "curBufPoolSz st + int (length buf) > int (length (curBufPool st))")
    case True
    have m: "int (length buf) \<le> max_int32 (PoolSz (opts st)) (int (length buf))"
      by (simp add: max_int32_def)
    show ?thesis
      using True m
      by (simp add: allocAndBindToID_store_def grow_case [OF ok fits True] Let_def n slice_def
            curBufPool_def copy_to_curBufPool_def stored_entry_def stored_pools_def stored_table_def
            replicate_add [symmetric] min_def)
  next
    case False
    have "\<exists>dst. slice (curBufPool st) (curBufPoolSz st) (curBufPoolSz st + int (length buf)) = Inr dst"
      using False ok by (intro slice_in_range) (auto simp: pools_ok_def)
    then obtain dst where d: "slice (curBufPool st) (curBufPoolSz st) (curBufPoolSz st + int (length buf)) = Inr dst"
      by blast
    from slice_length [OF d] have l: "length dst = length buf"
      by simp
    show ?thesis
      using False ok
      by (simp add: allocAndBindToID_store_def no_grow_case [OF ok fits False] Let_def n s d l
            copy_to_curBufPool_def stored_entry_def stored_pools_def stored_table_def pools_ok_def)
  qed
qed

lemma stored_table_frame [simp]:
  "db (stored_table st buf bindID hash) = db st"
  "opts (stored_table st buf bindID hash) = opts st"
  "valueCache (stored_table st buf bindID hash) = (valueCache st)(hash \<mapsto> stored_entry st buf bindID)"
  "tokenCache (stored_table st buf bindID hash) = (tokenCache st)(bindID \<mapsto> stored_entry st buf bindID)"
  "bufPools (stored_table st buf bindID hash) = stored_pools st buf"
  by (simp_all add: stored_table_def)

lemma stored_entry_simps [simp]:
  "symID (stored_entry st buf bindID) = bindID"
  "len (stored_entry st buf bindID) = int (length buf)"
  by (simp_all add: stored_entry_def)

lemma pools_ok_stored:
  assumes ok: "pools_ok st" and fits: "fits st buf"
  shows "pools_ok (stored_table st buf bindID hash)"
proof (cases "curBufPoolSz st + int (length buf) > int (length (curBufPool st))")
  case True
  have "int (length buf) \<le> max_int32 (PoolSz (opts st)) (int (length buf))"
    by (simp add: max_int32_def)
  then show ?thesis
    using True by (simp add: pools_ok_def stored_table_def stored_pools_def curBufPool_def)
next
  case False
  show ?thesis
  proof (cases "bufPools st = []")
    case True
    with False ok show ?thesis
      by (simp add: pools_ok_def stored_table_def stored_pools_def curBufPool_def)
  next
    case ne: False
    with False ok show ?thesis
      by (simp add: pools_ok_def stored_table_def stored_pools_def curBufPool_def)
  qed
qed

lemma entry_in_stored_new:
  assumes ok: "pools_ok st" and fits: "fits st buf" and ne: "buf \<noteq> [] \<or> bufPools st \<noteq> []"
  shows "entry_in (stored_table st buf bindID hash) (stored_entry st buf bindID)
       \<and> entry_bytes (stored_table st buf bindID hash) (stored_entry st buf bindID) = buf"
proof (cases "curBufPoolSz st + int (length buf) > int (length (curBufPool st))")
  case True
  have "int (length buf) \<le> max_int32 (PoolSz (opts st)) (int (length buf))"
    by (simp add: max_int32_def)
  moreover have "int (length buf) < 2147483648"
    using ok fits by (simp add: pools_ok_def fits_def)
  ultimately show ?thesis
    using True
    by (simp add: entry_in_def entry_bytes_def stored_table_def stored_pools_def stored_entry_def)
next
  case False
  have "bufPools st \<noteq> []"
  proof
    assume "bufPools st = []"
    with False have "curBufPoolSz st + int (length buf) \<le> 0" by (simp add: curBufPool_def)
    moreover from ok have "0 \<le> curBufPoolSz st" by (simp add: pools_ok_def)
    ultimately have "int (length buf) \<le> 0" by linarith
    then have "buf = []" by simp
    with ne \<open>bufPools st = []\<close> show False by simp
  qed
  then obtain ps p where ps: "bufPools st = ps @ [p]"
    by (metis rev_exhaust)
  with False ok fits show ?thesis
    by (simp add: entry_in_def entry_bytes_def stored_table_def stored_pools_def stored_entry_def fits_def
          pools_ok_def curBufPool_def nth_append)
qed

lemma take_drop_prefix:
  assumes "a + n \<le> k" and "k \<le> length p"
  shows "take n (drop a (take k p @ r)) = take n (drop a p)"
proof -
  have "drop a (take k p @ r) = drop a (take k p) @ r"
    using assms by simp
  moreover have "n \<le> length (drop a (take k p))"
    using assms by simp
  ultimately have "take n (drop a (take k p @ r)) = take n (drop a (take k p))"
    by simp
  also have "\<dots> = take n (take (k - a) (drop a p))"
    by (simp add: drop_take)
  also have "\<dots> = take n (drop a p)"
    using assms by (simp add: min_def)
  finally show ?thesis .
qed

lemma entry_in_stored_old:
  assumes ok: "pools_ok st" and fits: "fits st buf" and old: "entry_in st kv"
  shows "entry_in (stored_table st buf bindID hash) kv
       \<and> entry_bytes (stored_table st buf bindID hash) kv = entry_bytes st kv"
proof (cases "curBufPoolSz st + int (length buf) > int (length (curBufPool st))")
  case True
  from old have "nat (poolIdx kv) < length (bufPools st)"
    unfolding entry_in_def by linarith
  with True old show ?thesis
    by (simp add: entry_in_def entry_bytes_def stored_table_def stored_pools_def nth_append)
next
  case False
  from old have "bufPools st \<noteq> []"
    by (auto simp: entry_in_def)
  then obtain ps p where ps: "bufPools st = ps @ [p]"
    by (metis rev_exhaust)
  from old ps have rng: "0 \<le> poolIdx kv" "poolIdx kv \<le> int (length ps)"
    by (simp_all add: entry_in_def)
  show ?thesis
  proof (cases "poolIdx kv = int (length ps)")
    case True
    then have i: "nat (poolIdx kv) = length ps"
      by simp
    from old ps True have "poolOfs kv + len kv \<le> curBufPoolSz st" "0 \<le> poolOfs kv" "0 \<le> len kv"
      by (simp_all add: entry_in_def)
    then have le: "nat (poolOfs kv) + nat (len kv) \<le> nat (curBufPoolSz st)"
      by linarith
    from False ok ps have "curBufPoolSz st + int (length buf) \<le> int (length p)" "0 \<le> curBufPoolSz st"
      by (simp_all add: pools_ok_def curBufPool_def)
    then have k: "nat (curBufPoolSz st) \<le> length p"
      and k2: "nat (curBufPoolSz st) + length buf \<le> length p"
      by linarith+
    have new: "bufPools (stored_table st buf bindID hash) ! nat (poolIdx kv)
                 = take (nat (curBufPoolSz st)) p @ (buf @ drop (nat (curBufPoolSz st) + length buf) p)"
      using i False ps by (simp add: stored_pools_def curBufPool_def nth_append)
    have prev: "bufPools st ! nat (poolIdx kv) = p"
      using i ps by (simp add: nth_append)
    have "entry_bytes (stored_table st buf bindID hash) kv = entry_bytes st kv"
      unfolding entry_bytes_def new prev by (rule take_drop_prefix [OF le k])
    moreover have "entry_in (stored_table st buf bindID hash) kv"
      using i True False ps old k2
      by (simp add: entry_in_def stored_table_def stored_pools_def curBufPool_def nth_append)
    ultimately show ?thesis by simp
  next
    case f: False
    with rng have i: "nat (poolIdx kv) < length ps"
      by linarith
    with f False old ps show ?thesis
      by (simp add: entry_in_def entry_bytes_def stored_table_def stored_pools_def
            curBufPool_def nth_append)
  qed
qed

section \<open>Binding a value in the caches\<close>

lemma fits_len:
  assumes "pools_ok st" and "fits st buf"
  shows "int32 (int (length buf)) = int (length buf)"
  using assms by (intro int32_id) (auto simp: pools_ok_def fits_def)

lemma alloc_cases:
  assumes "allocAndBindToID H st buf bindID = Some (Inr (kv, st'))"
  obtains (hit) h where "probes st buf (H buf) h" "stops_at st buf h (Some kv)" "symID kv = bindID" "st' = st"
  | (store) h f where "probes st buf (H buf) h" "stops_at st buf h f" "found_ID f \<noteq> bindID \<or> f = None"
      "allocAndBindToID_store st buf bindID h = Inr (kv, st')"
proof -
  from assms obtain h f where l: "allocAndBindToID_loop st buf (H buf) = Some (Inr (h, f))"
    by (auto simp: allocAndBindToID_def split: option.splits sum.splits)
  from alloc_loop_probes [OF l] have p: "probes st buf (H buf) h" and s: "stops_at st buf h f"
    by auto
  show thesis
  proof (cases "\<exists>kv0. f = Some kv0 \<and> symID kv0 = bindID")
    case True
    then obtain kv0 where f: "f = Some kv0" "symID kv0 = bindID" by blast
    with assms l have "kv = kv0" "st' = st"
      by (auto simp: allocAndBindToID_def)
    with p s f show thesis by (intro hit) auto
  next
    case False
    with assms l have "allocAndBindToID_store st buf bindID h = Inr (kv, st')"
      by (auto simp: allocAndBindToID_def split: option.splits if_splits)
    moreover from False have "found_ID f \<noteq> bindID \<or> f = None"
      by (cases f) (auto simp: found_ID_def)
    ultimately show thesis using p s by (intro store) auto
  qed
qed

text \<open>What \<open>equals\<close> answers for the entries of a value cache that is comparable.\<close>

lemma equals_cached:
  assumes ok: "pools_ok st" and fits: "fits st buf" and c: "comparable st buf"
    and v: "valueCache st h = Some kv"
  shows "equals st kv buf = Inr (len kv = int (length buf) \<and> entry_bytes st kv = buf)"
proof (cases "len kv = int (length buf)")
  case True
  with c v have "entry_in st kv"
    by (auto simp: comparable_def)
  from equals_entry_in [OF this, of buf] True show ?thesis
    by (simp add: fits_len [OF ok fits])
next
  case False
  then show ?thesis
    by (simp add: equals_def fits_len [OF ok fits])
qed

lemma stops_at_bytes:
  assumes "pools_ok st" and "fits st buf" and "comparable st buf" and "stops_at st buf h (Some kv)"
  shows "entry_in st kv \<and> entry_bytes st kv = buf \<and> len kv = int (length buf)"
proof -
  from assms(4) have v: "valueCache st h = Some kv" and e: "equals st kv buf = Inr True"
    by (simp_all add: stops_at_def)
  from e equals_cached [OF assms(1-3) v] have "len kv = int (length buf)" "entry_bytes st kv = buf"
    by simp_all
  moreover from this assms(3) v have "entry_in st kv"
    by (auto simp: comparable_def)
  ultimately show ?thesis
    by simp
qed

text \<open>The loops come to an end in a comparable value cache with a free slot.\<close>

lemma comparable_probes_exist:
  assumes "pools_ok st" and "fits st buf" and "comparable st buf" and "valueCache st s = None"
  shows "\<exists>h' f. probes st buf h h' \<and> stops_at st buf h' f"
proof (rule probes_exist [OF assms(4)], intro allI impI)
  fix h kv
  assume "valueCache st h = Some kv"
  from equals_cached [OF assms(1-3) this]
  show "\<exists>b. equals st kv buf = Inr b"
    by blast
qed

lemma getIDFromCache_returns:
  assumes "pools_ok st" and "fits st buf" and "comparable st buf" and "valueCache st s = None"
  shows "\<exists>i. getIDFromCache H st buf = Some (Inr i)"
proof -
  from comparable_probes_exist [OF assms] obtain h f
    where "probes st buf (H buf) h" "stops_at st buf h f"
    by blast
  from probes_get_loop [OF this] show ?thesis
    by (simp add: getIDFromCache_def)
qed

lemma allocAndBindToID_returns:
  assumes ok: "pools_ok st" and fits: "fits st buf" and c: "comparable st buf"
    and free: "valueCache st s = None"
  shows "\<exists>kv st'. allocAndBindToID H st buf bindID = Some (Inr (kv, st'))"
proof -
  from comparable_probes_exist [OF assms] obtain h f
    where "probes st buf (H buf) h" "stops_at st buf h f"
    by blast
  from probes_alloc_loop [OF this]
  have l: "allocAndBindToID_loop st buf (H buf) = Some (Inr (h, f))" .
  show ?thesis
    by (cases f) (simp_all add: allocAndBindToID_def l store_eq [OF ok fits])
qed

text \<open>The entries of the value cache after a value has been stored.\<close>

lemma equals_stored_old:
  assumes "pools_ok st" "fits st buf" "len kv = int32 (int (length w)) \<longrightarrow> entry_in st kv"
  shows "equals (stored_table st buf bindID hash) kv w = equals st kv w"
proof (cases "len kv = int32 (int (length w))")
  case True
  with assms(3) have i: "entry_in st kv"
    by simp
  from entry_in_stored_old [OF assms(1,2) i, of bindID hash] i show ?thesis
    by (simp add: equals_entry_in)
next
  case False
  then show ?thesis
    by (auto simp: equals_def)
qed

lemma equals_stored_new:
  assumes "pools_ok st" "fits st buf" "buf \<noteq> [] \<or> bufPools st \<noteq> []"
  shows "equals (stored_table st buf bindID hash) (stored_entry st buf bindID) w
           = Inr (int32 (int (length w)) = int (length buf) \<and> buf = w)"
  using entry_in_stored_new [OF assms, of bindID hash]
  by (simp add: equals_entry_in)

lemma comparable_stored:
  assumes ok: "pools_ok st" and fits: "fits st buf" and c: "comparable st w"
    and ne: "length w = length buf \<longrightarrow> buf \<noteq> [] \<or> bufPools st \<noteq> []"
  shows "comparable (stored_table st buf bindID hash) w"
  unfolding comparable_def
proof (intro allI impI)
  fix h kv
  assume v: "valueCache (stored_table st buf bindID hash) h = Some kv" and l: "len kv = int (length w)"
  show "entry_in (stored_table st buf bindID hash) kv"
  proof (cases "h = hash")
    case True
    with v have kv: "kv = stored_entry st buf bindID"
      by simp
    with l have "length w = length buf"
      by simp
    with ne have "buf \<noteq> [] \<or> bufPools st \<noteq> []"
      by simp
    from entry_in_stored_new [OF ok fits this, of bindID hash] kv show ?thesis
      by simp
  next
    case False
    with v have "valueCache st h = Some kv"
      by simp
    with c l have "entry_in st kv"
      by (auto simp: comparable_def)
    from entry_in_stored_old [OF ok fits this, of bindID hash] show ?thesis
      by simp
  qed
qed

lemma get_after_store:
  assumes ok: "pools_ok st" and fits: "fits st buf" and c: "comparable st buf"
    and ne: "buf \<noteq> [] \<or> bufPools st \<noteq> []" and p: "probes st buf (H buf) h"
  shows "getIDFromCache H (stored_table st buf bindID h) buf = Some (Inr bindID)"
proof -
  let ?st' = "stored_table st buf bindID h"
  note n = fits_len [OF ok fits]
  have "probes ?st' buf (H buf) h"
  proof (rule probes_frame [OF p])
    fix slot kv
    assume a: "slot \<noteq> h" "valueCache st slot = Some kv" "equals st kv buf = Inr False"
    from c a(2) have "len kv = int32 (int (length buf)) \<longrightarrow> entry_in st kv"
      by (auto simp: comparable_def n)
    from equals_stored_old [OF ok fits this, of bindID h] a
    show "\<exists>kv'. valueCache ?st' slot = Some kv' \<and> equals ?st' kv' buf = Inr False"
      by simp
  qed
  moreover have "stops_at ?st' buf h (Some (stored_entry st buf bindID))"
    by (simp add: stops_at_def equals_stored_new [OF ok fits ne] n)
  ultimately have "getIDFromCache_loop ?st' buf (H buf) = Some (Inr (found_ID (Some (stored_entry st buf bindID))))"
    by (rule probes_get_loop)
  then show ?thesis by (simp add: getIDFromCache_def found_ID_def)
qed

section \<open>The frame of \<open>getsetValueIDPair\<close>\<close>

lemma same_arena_refl [simp]: "same_arena st st"
  by (simp add: same_arena_def)

lemma same_arena_equals:
  assumes "same_arena a b"
  shows "equals a kv w = equals b kv w" "bufForEntry a kv = bufForEntry b kv"
proof -
  from assms have "bufPools a = bufPools b"
    by (simp add: same_arena_def)
  then show "equals a kv w = equals b kv w" "bufForEntry a kv = bufForEntry b kv"
    by (simp_all add: equals_def bufForEntry_def cong: if_cong)
qed

lemma same_arena_preds:
  assumes "same_arena a b"
  shows "pools_ok a = pools_ok b" "fits a buf = fits b buf" "comparable a buf = comparable b buf"
    "token_holds a x v = token_holds b x v" "bufPools a = bufPools b" "tokenCache a = tokenCache b"
    "valueCache a = valueCache b" "entry_in a kv = entry_in b kv" "entry_bytes a kv = entry_bytes b kv"
  using assms
  by (simp_all add: same_arena_def pools_ok_def entry_in_def curBufPool_def fits_def
        comparable_def token_holds_def entry_bytes_def)

lemma same_arena_agree:
  assumes "same_arena a b"
  shows "tokens_agree_on a v = tokens_agree_on b v" "cached_under a buf x = cached_under b buf x"
  using same_arena_preds(4,7) [OF assms] same_arena_equals(1) [OF assms]
  by (simp_all add: tokens_agree_on_def cached_under_def)

lemma txn_frame:
  assumes "getsetValueIDPair_txn I st d val s m = Inr (sid, st1)"
  shows "same_arena st st1"
  using assms
  by (auto simp: getsetValueIDPair_txn_def same_arena_def Let_def
        split: if_splits option.splits sum.splits prod.splits)

text \<open>With an explicit ID the transaction returns that ID, and never panics.\<close>

lemma ReadFrom_IDSz: "length buf = IDSz \<Longrightarrow> \<exists>i. ReadFrom buf = Inr (i, IDSz)"
  by (simp add: ReadFrom_def IDSz_def)

lemma txn_explicit:
  assumes "s \<noteq> 0"
  shows "\<exists>st1. getsetValueIDPair_txn I st d val s m = Inr (s, st1) \<and> opts st1 = opts st"
proof (cases "items d (valKey st val)")
  case None
  with assms show ?thesis
    by (simp add: getsetValueIDPair_txn_def Let_def)
next
  case (Some buf)
  show ?thesis
  proof (cases "length buf = IDSz")
    case True
    from ReadFrom_IDSz [OF this] obtain i where "ReadFrom buf = Inr (i, IDSz)"
      by blast
    with assms Some True show ?thesis
      by (simp add: getsetValueIDPair_txn_def Let_def)
  next
    case False
    with assms Some show ?thesis
      by (simp add: getsetValueIDPair_txn_def Let_def)
  qed
qed

text \<open>
  With the zero ID and \<open>mapID\<close> set, and an issuer that gives a non-zero ID and no
  error, the transaction returns a non-zero ID.
\<close>

lemma txn_issue:
  assumes "I (Issuer (opts st)) = ((i, False), iss)" and "i \<noteq> 0"
  shows "\<exists>r st1. getsetValueIDPair_txn I st d val 0 True = Inr (r, st1) \<and> r \<noteq> 0"
proof (cases "items d (valKey st val)")
  case None
  with assms show ?thesis
    by (simp add: getsetValueIDPair_txn_def Let_def)
next
  case (Some buf)
  show ?thesis
  proof (cases "length buf = IDSz")
    case True
    from ReadFrom_IDSz [OF this] obtain e where "ReadFrom buf = Inr (e, IDSz)"
      by blast
    with assms Some True show ?thesis
      by (cases "e = 0") (simp_all add: getsetValueIDPair_txn_def Let_def)
  next
    case False
    with assms Some show ?thesis
      by (simp add: getsetValueIDPair_txn_def Let_def)
  qed
qed

lemma getset_cases:
  assumes "getsetValueIDPair H I st val s m = Some (Inr (r, st'))"
  obtains (zero) "r = 0" "same_arena st st'"
  | (bound) st1 kv where "r \<noteq> 0" "same_arena st st1" "allocAndBindToID H st1 val r = Some (Inr (kv, st'))"
proof -
  from assms obtain st1 where
    inner: "(case db st of
              None \<Rightarrow>
                if s = 0 \<and> m
                then (let ((i, e), iss) = I (Issuer (opts st))
                      in Inr (i, st\<lparr>opts := (opts st)\<lparr>Issuer := iss\<rparr>\<rparr>))
                else Inr (s, st)
            | Some d \<Rightarrow> getsetValueIDPair_txn I st d val s m) = Inr (r, st1)"
    and rest: "(if r \<noteq> 0
          then (case allocAndBindToID H st1 val r of
                  None \<Rightarrow> None
                | Some (Inl e) \<Rightarrow> Some (Inl e)
                | Some (Inr (kv, st2)) \<Rightarrow> Some (Inr (r, st2)))
          else Some (Inr (r, st1))) = Some (Inr (r, st'))"
    by (auto simp: getsetValueIDPair_def split: sum.splits prod.splits if_splits option.splits)
  have sa: "same_arena st st1"
  proof (cases "db st")
    case None
    with inner show ?thesis
      by (auto simp: same_arena_def Let_def split: if_splits prod.splits)
  next
    case (Some d)
    with inner show ?thesis by (auto intro: txn_frame)
  qed
  show thesis
  proof (cases "r = 0")
    case True
    with rest sa show thesis by (intro zero) auto
  next
    case False
    with rest obtain kv where "allocAndBindToID H st1 val r = Some (Inr (kv, st'))"
      by (auto split: option.splits sum.splits prod.splits)
    with False sa show thesis by (intro bound)
  qed
qed

text \<open>
  \<open>getsetValueIDPair\<close> returns once its first part gives an ID: the loop of
  \<open>allocAndBindToID\<close> ends in a comparable value cache with a free slot.
\<close>

lemma getset_returns:
  assumes ok: "pools_ok st" and fits: "fits st val" and c: "comparable st val"
    and free: "valueCache st slot = None"
    and inner: "(case db st of
              None \<Rightarrow>
                if s = 0 \<and> m
                then (let ((i, e), iss) = I (Issuer (opts st))
                      in Inr (i, st\<lparr>opts := (opts st)\<lparr>Issuer := iss\<rparr>\<rparr>))
                else Inr (s, st)
            | Some d \<Rightarrow> getsetValueIDPair_txn I st d val s m) = Inr (r, st1)"
  shows "\<exists>st'. getsetValueIDPair H I st val s m = Some (Inr (r, st'))"
proof (cases "r = 0")
  case True
  with inner show ?thesis
    by (simp add: getsetValueIDPair_def)
next
  case False
  have sa: "same_arena st st1"
  proof (cases "db st")
    case None
    with inner show ?thesis
      by (auto simp: same_arena_def Let_def split: if_splits prod.splits)
  next
    case (Some d)
    with inner show ?thesis by (auto intro: txn_frame)
  qed
  from same_arena_preds [OF sa] ok fits c free
  have "pools_ok st1" "fits st1 val" "comparable st1 val" "valueCache st1 slot = None"
    by simp_all
  from allocAndBindToID_returns [OF this, of H r] obtain kv st'
    where "allocAndBindToID H st1 val r = Some (Inr (kv, st'))"
    by blast
  with inner False show ?thesis
    by (simp add: getsetValueIDPair_def)
qed

lemma SetSymbolID_returns:
  assumes ok: "pools_ok st" and fits: "fits st val" and c: "comparable st val"
    and free: "valueCache st slot = None" and s: "s \<noteq> 0"
  shows "\<exists>st'. SetSymbolID H I st val s = Some (Inr (s, st'))"
proof -
  have "\<exists>st1. (case db st of
              None \<Rightarrow>
                if s = 0 \<and> (s = 0)
                then (let ((i, e), iss) = I (Issuer (opts st))
                      in Inr (i, st\<lparr>opts := (opts st)\<lparr>Issuer := iss\<rparr>\<rparr>))
                else Inr (s, st)
            | Some d \<Rightarrow> getsetValueIDPair_txn I st d val s (s = 0)) = Inr (s, st1)"
  proof (cases "db st")
    case None
    with s show ?thesis by simp
  next
    case (Some d)
    with txn_explicit [OF s, of I st d val "s = 0"] show ?thesis by auto
  qed
  then obtain st1 where "(case db st of
              None \<Rightarrow>
                if s = 0 \<and> (s = 0)
                then (let ((i, e), iss) = I (Issuer (opts st))
                      in Inr (i, st\<lparr>opts := (opts st)\<lparr>Issuer := iss\<rparr>\<rparr>))
                else Inr (s, st)
            | Some d \<Rightarrow> getsetValueIDPair_txn I st d val s (s = 0)) = Inr (s, st1)"
    by blast
  from getset_returns [OF ok fits c free this] show ?thesis
    by (simp add: SetSymbolID_def)
qed

lemma SetSymbolID_cases:
  assumes "SetSymbolID H I st v s = Some (Inr (r, st'))" and "s \<noteq> 0"
  obtains st1 kv where "same_arena st st1" "allocAndBindToID H st1 v s = Some (Inr (kv, st'))"
proof -
  from assms(1) have g: "getsetValueIDPair H I st v s (s = 0) = Some (Inr (r, st'))"
    by (simp add: SetSymbolID_def)
  have r: "r = s"
  proof (cases "db st")
    case None
    with g assms(2) show ?thesis
      by (auto simp: getsetValueIDPair_def split: option.splits sum.splits prod.splits if_splits)
  next
    case (Some d)
    from txn_explicit [OF assms(2), of I st d v "s = 0"] obtain st1
      where "getsetValueIDPair_txn I st d v s (s = 0) = Inr (s, st1)"
      by blast
    with g Some assms(2) show ?thesis
      by (auto simp: getsetValueIDPair_def split: option.splits sum.splits prod.splits if_splits)
  qed
  from g show thesis
  proof (cases rule: getset_cases)
    case zero
    with r assms(2) show ?thesis by simp
  next
    case (bound st1 kv)
    with r show ?thesis by (intro that) auto
  qed
qed

section \<open>The caches after a binding\<close>

lemma same_arena_probes:
  assumes "same_arena a b" and "probes a buf h h'"
  shows "probes b buf h h'"
proof (rule probes_frame [OF assms(2)])
  fix slot kv
  assume "slot \<noteq> h'" "valueCache a slot = Some kv" "equals a kv buf = Inr False"
  then show "\<exists>kv'. valueCache b slot = Some kv' \<and> equals b kv' buf = Inr False"
    using assms(1) same_arena_equals(1) [OF assms(1)] by (simp add: same_arena_def)
qed

lemma same_arena_stops_at:
  assumes "same_arena a b"
  shows "stops_at a buf h f = stops_at b buf h f"
  using assms same_arena_equals(1) [OF assms]
  by (simp add: stops_at_def same_arena_def split: option.splits)

lemma same_arena_getIDFromCache:
  assumes "same_arena a b" and "getIDFromCache H a buf = Some (Inr i)"
  shows "getIDFromCache H b buf = Some (Inr i)"
proof -
  from assms(2) obtain h f where "probes a buf (H buf) h" "stops_at a buf h f" "i = found_ID f"
    unfolding getIDFromCache_def by (blast dest: get_loop_probes)
  then have "probes b buf (H buf) h" "stops_at b buf h f"
    using assms(1) by (simp_all add: same_arena_probes same_arena_stops_at)
  from probes_get_loop [OF this] \<open>i = found_ID f\<close> show ?thesis
    by (simp add: getIDFromCache_def)
qed

text \<open>An entry equals one value at most.\<close>

lemma equals_unique:
  assumes "equals st kv a = Inr True" and "equals st kv b = Inr True"
  shows "a = b"
proof -
  from assms have l: "int32 (int (length a)) = len kv" "int32 (int (length b)) = len kv"
    by (auto simp: equals_def Let_def split: if_splits)
  from assms(1) l obtain pool s where p: "index_pool (bufPools st) (poolIdx kv) = Inr pool"
    and s: "slice pool (poolOfs kv) (int32 (poolOfs kv + len kv)) = Inr s" and a: "s = a"
    by (auto simp: equals_def Let_def split: if_splits sum.splits)
  from assms(2) l p s have "s = b"
    by (auto simp: equals_def Let_def split: if_splits sum.splits)
  with a show ?thesis
    by simp
qed

text \<open>What \<open>allocAndBindToID\<close> leaves behind when it returns.\<close>

lemma alloc_ok:
  assumes ok: "pools_ok st" and fits: "fits st buf" and c: "comparable st buf"
    and ne: "buf \<noteq> [] \<or> bufPools st \<noteq> []"
    and a: "allocAndBindToID H st buf bindID = Some (Inr (kv, st'))"
  shows "pools_ok st' \<and> comparable st' buf \<and> db st' = db st \<and> opts st' = opts st \<and> symID kv = bindID
       \<and> entry_in st' kv \<and> entry_bytes st' kv = buf
       \<and> getIDFromCache H st' buf = Some (Inr bindID)"
  using a
proof (cases rule: alloc_cases)
  case (hit h)
  from probes_get_loop [OF hit(1,2)] hit(3)
  have "getIDFromCache H st buf = Some (Inr bindID)"
    by (simp add: getIDFromCache_def found_ID_def)
  with hit ok c stops_at_bytes [OF ok fits c hit(2)] show ?thesis by simp
next
  case (store h f)
  with store_eq [OF ok fits, of bindID h]
  have kv: "kv = stored_entry st buf bindID" and st': "st' = stored_table st buf bindID h"
    by simp_all
  show ?thesis
    unfolding kv st'
    using pools_ok_stored [OF ok fits, of bindID h] entry_in_stored_new [OF ok fits ne, of bindID h]
      comparable_stored [OF ok fits c, of bindID h] ne
      get_after_store [where H = H, OF ok fits c ne store(1), of bindID]
    by simp
qed

text \<open>Storing one value leaves the cached ID of another value as it is.\<close>

lemma get_other_after_store:
  assumes ok: "pools_ok st" and fits: "fits st buf" and ne: "buf \<noteq> [] \<or> bufPools st \<noteq> []"
    and s: "stops_at st buf h f"
    and n: "int32 (int (length w)) = int (length w)" and cw: "comparable st w"
    and w: "w \<noteq> buf" and pw: "probes st w (H w) hw" and sw: "stops_at st w hw (Some kvw)"
  shows "getIDFromCache H (stored_table st buf bindID h) w = Some (Inr (symID kvw))"
proof -
  let ?st' = "stored_table st buf bindID h"
  have old: "equals ?st' kv w = equals st kv w" if "valueCache st slot = Some kv" for slot kv
  proof -
    from cw that have "len kv = int32 (int (length w)) \<longrightarrow> entry_in st kv"
      by (auto simp: comparable_def n)
    from equals_stored_old [OF ok fits this] show ?thesis .
  qed
  have hne: "hw \<noteq> h"
  proof
    assume "hw = h"
    with sw s have "equals st kvw w = Inr True" "equals st kvw buf = Inr True"
      by (auto simp: stops_at_def split: option.splits)
    from equals_unique [OF this] w show False by simp
  qed
  have "probes ?st' w (H w) hw"
  proof (rule probes_frame [OF pw])
    fix slot kv
    assume a: "slot \<noteq> hw" "valueCache st slot = Some kv" "equals st kv w = Inr False"
    show "\<exists>kv'. valueCache ?st' slot = Some kv' \<and> equals ?st' kv' w = Inr False"
    proof (cases "slot = h")
      case True
      then show ?thesis using w by (simp add: equals_stored_new [OF ok fits ne])
    next
      case False
      with a old [OF a(2)] show ?thesis by simp
    qed
  qed
  moreover from sw have "valueCache st hw = Some kvw" "equals st kvw w = Inr True"
    by (simp_all add: stops_at_def)
  with hne old [of hw kvw] have "stops_at ?st' w hw (Some kvw)"
    by (simp add: stops_at_def)
  ultimately have "getIDFromCache_loop ?st' w (H w) = Some (Inr (found_ID (Some kvw)))"
    by (rule probes_get_loop)
  then show ?thesis by (simp add: getIDFromCache_def found_ID_def)
qed

lemma cached_under_stored:
  assumes ok: "pools_ok st" and fits: "fits st buf" and ne: "buf \<noteq> [] \<or> bufPools st \<noteq> []"
    and lw: "int32 (int (length w)) = int (length w)" and cw: "comparable st w" and w: "w \<noteq> buf"
    and n: "\<not> cached_under st w x"
  shows "\<not> cached_under (stored_table st buf bindID h) w x"
proof
  let ?st' = "stored_table st buf bindID h"
  assume "cached_under ?st' w x"
  then obtain slot kv where v: "valueCache ?st' slot = Some kv" and i: "symID kv = x"
    and e: "equals ?st' kv w = Inr True"
    by (auto simp: cached_under_def)
  show False
  proof (cases "slot = h")
    case True
    with v have "kv = stored_entry st buf bindID" by simp
    with e w show False by (simp add: equals_stored_new [OF ok fits ne])
  next
    case False
    with v have o: "valueCache st slot = Some kv" by simp
    with cw have "len kv = int32 (int (length w)) \<longrightarrow> entry_in st kv"
      by (auto simp: comparable_def lw)
    from equals_stored_old [OF ok fits this, of bindID h] e have "equals st kv w = Inr True"
      by simp
    with o i n show False by (auto simp: cached_under_def)
  qed
qed

text \<open>The entry that the token cache holds for an ID, after a value has been stored.\<close>

lemma token_holds_stored_other:
  assumes ok: "pools_ok st" and fits: "fits st buf" and t: "token_holds st x v" and "bindID \<noteq> x"
  shows "token_holds (stored_table st buf bindID h) x v"
proof -
  from t obtain kv where k: "tokenCache st x = Some kv" "symID kv \<noteq> 0" "entry_in st kv"
    "entry_bytes st kv = v"
    by (auto simp: token_holds_def)
  from entry_in_stored_old [OF ok fits k(3), of bindID h] k assms(4) show ?thesis
    by (auto simp: token_holds_def)
qed

lemma token_holds_stored_same:
  assumes ok: "pools_ok st" and fits: "fits st v" and ne: "v \<noteq> [] \<or> bufPools st \<noteq> []" and "x \<noteq> 0"
  shows "token_holds (stored_table st v x h) x v"
  using entry_in_stored_new [OF ok fits ne, of x h] assms(4)
  by (auto simp: token_holds_def)

lemma token_holds_pools: "token_holds st x v \<Longrightarrow> bufPools st \<noteq> []"
  by (auto simp: token_holds_def entry_in_def)

lemma alloc_keeps:
  assumes ok: "pools_ok st" and fits: "fits st w" and t: "token_holds st x v" and x: "x \<noteq> 0"
    and k: "r = x \<longrightarrow> w = v"
    and a: "allocAndBindToID H st w r = Some (Inr (kv, st'))"
  shows "pools_ok st' \<and> token_holds st' x v"
  using a
proof (cases rule: alloc_cases)
  case (hit h)
  with ok t show ?thesis by simp
next
  case (store h f)
  with store_eq [OF ok fits, of r h] have st': "st' = stored_table st w r h"
    by simp
  show ?thesis
  proof (cases "r = x")
    case True
    with k have "w = v" by simp
    with True st' pools_ok_stored [OF ok fits, of r h]
      token_holds_stored_same [OF ok _ _ x, of v h] fits token_holds_pools [OF t]
    show ?thesis by simp
  next
    case False
    with st' pools_ok_stored [OF ok fits, of r h] token_holds_stored_other [OF ok fits t, of r h]
    show ?thesis by simp
  qed
qed

section \<open>Interning a value and looking its ID up\<close>

lemma openTable_ok:
  "pools_ok (openTable d os)" "comparable (openTable d os) buf" "tokens_agree_on (openTable d os) v"
  "\<not> cached_under (openTable d os) buf x" "valueCache (openTable d os) slot = None"
  "bufPools (openTable d os) = []" "curBufPoolSz (openTable d os) = 0"
  by (simp_all add: pools_ok_def comparable_def tokens_agree_on_def cached_under_def openTable_def
        curBufPool_def)

lemma GetSymbolID_cases:
  assumes "GetSymbolID H I st v a = Some (Inr (x, st'))"
  obtains (cached) "x \<noteq> 0" "getIDFromCache H st v = Some (Inr x)" "st' = st"
  | (missed) "getIDFromCache H st v = Some (Inr 0)" "getsetValueIDPair H I st v 0 a = Some (Inr (x, st'))"
  using assms
  by (auto simp: GetSymbolID_def split: option.splits sum.splits if_splits)

lemma GetSymbolID_binds:
  assumes ok: "pools_ok st" and fits: "fits st v" and c: "comparable st v"
    and ne: "v \<noteq> [] \<or> bufPools st \<noteq> []"
    and g: "GetSymbolID H I st v a = Some (Inr (x, st'))" and x: "x \<noteq> 0"
  shows "getIDFromCache H st' v = Some (Inr x)"
  using g
proof (cases rule: GetSymbolID_cases)
  case cached
  then show ?thesis by simp
next
  case missed
  from missed(2) show ?thesis
  proof (cases rule: getset_cases)
    case zero
    with x show ?thesis by simp
  next
    case (bound st1 kv)
    from same_arena_preds [OF bound(2)] ok fits c ne
    have "pools_ok st1" "fits st1 v" "comparable st1 v" "v \<noteq> [] \<or> bufPools st1 \<noteq> []"
      by simp_all
    from alloc_ok [OF this bound(3)] show ?thesis by simp
  qed
qed

text \<open>
  \<open>GetSymbolID(v, true)\<close> returns a non-zero ID when a slot of the value cache is
  free and the issuer gives a non-zero ID and no error.
\<close>

lemma GetSymbolID_returns:
  assumes ok: "pools_ok st" and fits: "fits st v" and c: "comparable st v"
    and free: "valueCache st slot = None"
    and i: "I (Issuer (opts st)) = ((i, False), iss)" "i \<noteq> 0"
  shows "\<exists>x st'. GetSymbolID H I st v True = Some (Inr (x, st')) \<and> x \<noteq> 0"
proof -
  from getIDFromCache_returns [OF ok fits c free] obtain i0
    where g: "getIDFromCache H st v = Some (Inr i0)"
    by blast
  show ?thesis
  proof (cases "i0 = 0")
    case False
    with g show ?thesis by (simp add: GetSymbolID_def)
  next
    case True
    have "\<exists>r st1. (case db st of
              None \<Rightarrow>
                if (0 :: ID) = 0 \<and> True
                then (let ((i, e), iss) = I (Issuer (opts st))
                      in Inr (i, st\<lparr>opts := (opts st)\<lparr>Issuer := iss\<rparr>\<rparr>))
                else Inr (0, st)
            | Some d \<Rightarrow> getsetValueIDPair_txn I st d v 0 True) = Inr (r, st1) \<and> r \<noteq> 0"
    proof (cases "db st")
      case None
      with i show ?thesis by simp
    next
      case (Some d)
      with txn_issue [where I = I and st = st, OF i, of d v] show ?thesis by simp
    qed
    then obtain r st1 where inner: "(case db st of
              None \<Rightarrow>
                if (0 :: ID) = 0 \<and> True
                then (let ((i, e), iss) = I (Issuer (opts st))
                      in Inr (i, st\<lparr>opts := (opts st)\<lparr>Issuer := iss\<rparr>\<rparr>))
                else Inr (0, st)
            | Some d \<Rightarrow> getsetValueIDPair_txn I st d v 0 True) = Inr (r, st1)" and r: "r \<noteq> 0"
      by blast
    from getset_returns [OF ok fits c free inner] obtain st'
      where "getsetValueIDPair H I st v 0 True = Some (Inr (r, st'))"
      by blast
    with g True r show ?thesis by (simp add: GetSymbolID_def)
  qed
qed

text \<open>The token cache after \<open>GetSymbolID\<close> has returned a non-zero ID.\<close>

lemma GetSymbolID_token:
  assumes ok: "pools_ok st" and fits: "fits st v" and ne: "v \<noteq> [] \<or> bufPools st \<noteq> []"
    and agree: "tokens_agree_on st v"
    and g: "GetSymbolID H I st v a = Some (Inr (x, st'))" and x: "x \<noteq> 0"
  shows "pools_ok st' \<and> token_holds st' x v"
  using g
proof (cases rule: GetSymbolID_cases)
  case cached
  from cached(2) obtain h f where "stops_at st v h f" "x = found_ID f"
    unfolding getIDFromCache_def by (blast dest: get_loop_probes)
  with x obtain kv where "valueCache st h = Some kv" "equals st kv v = Inr True" "symID kv = x"
    by (cases f) (auto simp: found_ID_def stops_at_def)
  with agree x cached(3) ok show ?thesis
    by (auto simp: tokens_agree_on_def)
next
  case missed
  from missed(2) show ?thesis
  proof (cases rule: getset_cases)
    case zero
    with x show ?thesis by simp
  next
    case (bound st1 kv)
    from same_arena_preds [OF bound(2)] same_arena_agree [OF bound(2)] ok fits ne agree
    have ok1: "pools_ok st1" and f1: "fits st1 v" and ne1: "v \<noteq> [] \<or> bufPools st1 \<noteq> []"
      and a1: "tokens_agree_on st1 v"
      by simp_all
    from bound(3) show ?thesis
    proof (cases rule: alloc_cases)
      case (hit h)
      then have "valueCache st1 h = Some kv" "equals st1 kv v = Inr True"
        by (simp_all add: stops_at_def)
      with a1 hit(3,4) x ok1 show ?thesis
        by (auto simp: tokens_agree_on_def)
    next
      case (store h f)
      with store_eq [OF ok1 f1, of x h] have "st' = stored_table st1 v x h"
        by simp
      with pools_ok_stored [OF ok1 f1, of x h] token_holds_stored_same [OF ok1 f1 ne1 x, of h]
      show ?thesis by simp
    qed
  qed
qed

lemma token_lookup:
  assumes "token_holds st x v" and "x \<noteq> 0"
  shows "LookupID H st x = Some (Inr (Some v, st))"
proof -
  from assms(1) obtain kv where k: "tokenCache st x = Some kv" "symID kv \<noteq> 0" "entry_in st kv"
    "entry_bytes st kv = v"
    by (auto simp: token_holds_def)
  from bufForEntry_entry_in [OF k(3,2)] k(1,4) assms(2) show ?thesis
    by (simp add: LookupID_def)
qed

lemma LookupID_cases:
  assumes "LookupID H st y = Some (Inr (r, st'))"
  obtains (same) "st' = st"
  | (read) d val kv where "y \<noteq> 0" "tokenCache st y = None" "db st = Some d"
      "items d (idKey st y) = Some val" "allocAndBindToID H st val y = Some (Inr (kv, st'))"
      "bufForEntry st' kv = Inr r"
  using assms
  by (auto simp: LookupID_def split: if_splits option.splits sum.splits prod.splits)

text \<open>A later call leaves the bytes that the token cache holds for an ID, unless it gives the ID to another value.\<close>

lemma getset_keeps:
  assumes ok: "pools_ok st" and fits: "fits st w" and t: "token_holds st x v" and x: "x \<noteq> 0"
    and k: "r = x \<longrightarrow> w = v"
    and g: "getsetValueIDPair H I st w s m = Some (Inr (r, st'))"
  shows "pools_ok st' \<and> token_holds st' x v"
  using g
proof (cases rule: getset_cases)
  case zero
  from same_arena_preds [OF zero(2)] ok t show ?thesis by simp
next
  case (bound st1 kv)
  from same_arena_preds [OF bound(2)] ok fits t
  have "pools_ok st1" "fits st1 w" "token_holds st1 x v"
    by simp_all
  from alloc_keeps [OF this x k bound(3)] show ?thesis .
qed

lemma call_keeps:
  assumes ok: "pools_ok st" and t: "token_holds st x v" and x: "x \<noteq> 0"
    and d: "do_call H I st c = Some (Inr (r, st'))" and room: "room_for st c" and k: "keeps x v c r"
  shows "pools_ok st' \<and> token_holds st' x v"
proof (cases c)
  case (Get_call w a)
  with d obtain i where g: "GetSymbolID H I st w a = Some (Inr (i, st'))" and r: "r = GaveID i"
    by (auto simp: do_call_def after_def split: option.splits sum.splits prod.splits)
  from Get_call room have fits: "fits st w"
    by (simp add: room_for_def copied_def)
  from Get_call k r have k': "i = x \<longrightarrow> w = v"
    by (simp add: keeps_def)
  from g show ?thesis
  proof (cases rule: GetSymbolID_cases)
    case cached
    with ok t show ?thesis by simp
  next
    case missed
    from getset_keeps [OF ok fits t x k' missed(2)] show ?thesis .
  qed
next
  case (Set_call w s)
  with d obtain i where g: "getsetValueIDPair H I st w s (s = 0) = Some (Inr (i, st'))"
    and r: "r = GaveID i"
    by (auto simp: do_call_def after_def SetSymbolID_def split: option.splits sum.splits prod.splits)
  from Set_call room have fits: "fits st w"
    by (simp add: room_for_def copied_def)
  from Set_call k r have k': "i = x \<longrightarrow> w = v"
    by (simp add: keeps_def)
  from getset_keeps [OF ok fits t x k' g] show ?thesis .
next
  case (Lookup_call y)
  with d obtain b where l: "LookupID H st y = Some (Inr (b, st'))"
    by (auto simp: do_call_def after_def split: option.splits sum.splits prod.splits)
  from l show ?thesis
  proof (cases rule: LookupID_cases)
    case same
    with ok t show ?thesis by simp
  next
    case (read d val kv)
    with Lookup_call room have fits: "fits st val"
      by (simp add: room_for_def copied_def)
    from read(2) t have "y \<noteq> x"
      by (auto simp: token_holds_def)
    then have "y = x \<longrightarrow> val = v"
      by simp
    from alloc_keeps [OF ok fits t x this read(5)] show ?thesis .
  qed
qed

lemma later_keeps:
  assumes "later H I x v st st'" and "pools_ok st" and "token_holds st x v" and "x \<noteq> 0"
  shows "pools_ok st' \<and> token_holds st' x v"
  using assms
proof (induction rule: later.induct)
  case (later_now st)
  then show ?case by simp
next
  case (later_call st st1 c r st2)
  then have "pools_ok st1" "token_holds st1 x v"
    by simp_all
  from call_keeps [OF this later_call.prems(3) later_call.hyps(2,3,4)] show ?case .
qed

text \<open>Reading results off.\<close>

lemma result_ofD: "result_of m = Some r \<Longrightarrow> \<exists>st. m = Some (Inr (r, st))"
  by (auto simp: result_of_def split: option.splits sum.splits)

lemma times_fixed:
  assumes "f st = Some (Inr (x, st))"
  shows "times n f st = Some (Inr (replicate n x, st))"
  by (induction n) (simp_all add: assms after_def)

section \<open>Two bindings in a row\<close>

lemma alpha_beta [simp]: "alpha \<noteq> beta" "beta \<noteq> alpha" "alpha \<noteq> []" "beta \<noteq> []"
  "length alpha = 5" "length beta = 4"
  by (simp_all add: alpha_def beta_def)

lemma fits_stored:
  assumes "pools_ok st" "curBufPoolSz st + int (length buf) + int (length w) < 2147483648"
    "int (length (bufPools st)) < 2147483646"
  shows "fits (stored_table st buf bindID h) w"
proof (cases "bufPools st = []")
  case True
  with assms show ?thesis
    by (simp add: fits_def stored_table_def stored_pools_def pools_ok_def)
next
  case False
  with assms show ?thesis
    by (simp add: fits_def stored_table_def stored_pools_def pools_ok_def)
qed

section \<open>The tables that the operations build\<close>

text \<open>
  Every table built from a new one has its pool bookkeeping in order, and its cached
  entries of the length of a non-empty value lie in the arena.
\<close>

lemma alloc_comparable:
  assumes ok: "pools_ok st" and fits: "fits st buf" and c: "comparable st w" and w: "w \<noteq> []"
    and a: "allocAndBindToID H st buf r = Some (Inr (kv, st'))"
  shows "pools_ok st' \<and> comparable st' w"
  using a
proof (cases rule: alloc_cases)
  case (hit h)
  with ok c show ?thesis by simp
next
  case (store h f)
  with store_eq [OF ok fits, of r h] have st': "st' = stored_table st buf r h"
    by simp
  from w have "length w = length buf \<longrightarrow> buf \<noteq> [] \<or> bufPools st \<noteq> []"
    by auto
  from comparable_stored [OF ok fits c this, of r h] pools_ok_stored [OF ok fits, of r h]
  show ?thesis
    unfolding st' by simp
qed

lemma getset_comparable:
  assumes ok: "pools_ok st" and fits: "fits st buf" and c: "comparable st w" and w: "w \<noteq> []"
    and g: "getsetValueIDPair H I st buf s m = Some (Inr (r, st'))"
  shows "pools_ok st' \<and> comparable st' w"
  using g
proof (cases rule: getset_cases)
  case zero
  from same_arena_preds [OF zero(2)] ok c show ?thesis by simp
next
  case (bound st1 kv)
  from same_arena_preds [OF bound(2)] ok fits c
  have "pools_ok st1" "fits st1 buf" "comparable st1 w"
    by simp_all
  from alloc_comparable [OF this w bound(3)] show ?thesis .
qed

lemma call_comparable:
  assumes ok: "pools_ok st" and c: "comparable st w" and w: "w \<noteq> []"
    and d: "do_call H I st cl = Some (Inr (r, st'))" and room: "room_for st cl"
  shows "pools_ok st' \<and> comparable st' w"
proof (cases cl)
  case (Get_call buf a)
  with d obtain i where g: "GetSymbolID H I st buf a = Some (Inr (i, st'))"
    by (auto simp: do_call_def after_def split: option.splits sum.splits prod.splits)
  from Get_call room have fits: "fits st buf"
    by (simp add: room_for_def copied_def)
  from g show ?thesis
  proof (cases rule: GetSymbolID_cases)
    case cached
    with ok c show ?thesis by simp
  next
    case missed
    from getset_comparable [OF ok fits c w missed(2)] show ?thesis .
  qed
next
  case (Set_call buf s)
  with d obtain i where g: "getsetValueIDPair H I st buf s (s = 0) = Some (Inr (i, st'))"
    by (auto simp: do_call_def after_def SetSymbolID_def split: option.splits sum.splits prod.splits)
  from Set_call room have fits: "fits st buf"
    by (simp add: room_for_def copied_def)
  from getset_comparable [OF ok fits c w g] show ?thesis .
next
  case (Lookup_call y)
  with d obtain b where l: "LookupID H st y = Some (Inr (b, st'))"
    by (auto simp: do_call_def after_def split: option.splits sum.splits prod.splits)
  from l show ?thesis
  proof (cases rule: LookupID_cases)
    case same
    with ok c show ?thesis by simp
  next
    case (read d val kv)
    with Lookup_call room have fits: "fits st val"
      by (simp add: room_for_def copied_def)
    from alloc_comparable [OF ok fits c w read(5)] show ?thesis .
  qed
qed

lemma built_ok:
  assumes "built H I st"
  shows "pools_ok st \<and> (\<forall>w. w \<noteq> [] \<longrightarrow> comparable st w)"
  using assms
proof (induction rule: built.induct)
  case (built_new d os)
  show ?case by (simp add: openTable_ok)
next
  case (built_call st c r st')
  then have ok: "pools_ok st" and c: "\<And>w. w \<noteq> [] \<Longrightarrow> comparable st w"
    by simp_all
  show ?case
  proof (intro conjI allI impI)
    from call_comparable [OF ok c [of "[0]"] _ built_call.hyps(2,3)] show "pools_ok st'"
      by simp
  next
    fix w :: "byte list"
    assume w: "w \<noteq> []"
    from call_comparable [OF ok c [OF w] w built_call.hyps(2,3)] show "comparable st' w"
      by simp
  qed
qed

text \<open>
  The agreement of the two caches on a value \<open>v\<close> holds when no cached entry equals
  \<open>v\<close>, and a call that returns, has room, and keeps for \<open>v\<close> every ID under which
  \<open>v\<close> is cached leaves it in place.
\<close>

lemma tokens_agree_on_uncached:
  assumes "\<And>x. \<not> cached_under st v x"
  shows "tokens_agree_on st v"
  using assms by (auto simp: tokens_agree_on_def cached_under_def)

lemma equals_stored_outside:
  assumes ok: "pools_ok st" and e: "buf = []" "bufPools st = []"
  shows "equals (stored_table st buf r h) (stored_entry st buf r) v \<noteq> Inr True"
  using assms
  by (auto simp: equals_def stored_entry_def stored_table_def stored_pools_def index_pool_def
        pools_ok_def curBufPool_def Let_def)

lemma alloc_agree:
  assumes ok: "pools_ok st" and fits: "fits st w" and cv: "comparable st v"
    and lv: "int32 (int (length v)) = int (length v)" and agree: "tokens_agree_on st v"
    and k: "cached_under st v r \<longrightarrow> w = v" and r: "r \<noteq> 0"
    and a: "allocAndBindToID H st w r = Some (Inr (kv, st'))"
  shows "tokens_agree_on st' v"
  using a
proof (cases rule: alloc_cases)
  case (hit h)
  with agree show ?thesis by simp
next
  case (store h f)
  with store_eq [OF ok fits, of r h] have st': "st' = stored_table st w r h"
    by simp
  show ?thesis
    unfolding st' tokens_agree_on_def
  proof (intro allI impI)
    fix slot kv0
    assume v: "valueCache (stored_table st w r h) slot = Some kv0" and nz: "symID kv0 \<noteq> 0"
      and e: "equals (stored_table st w r h) kv0 v = Inr True"
    show "token_holds (stored_table st w r h) (symID kv0) v"
    proof (cases "slot = h")
      case True
      with v have kv0: "kv0 = stored_entry st w r"
        by simp
      have ne: "w \<noteq> [] \<or> bufPools st \<noteq> []"
        using equals_stored_outside [OF ok, of w r h v] e kv0 by auto
      from e kv0 have "w = v"
        by (simp add: equals_stored_new [OF ok fits ne])
      with token_holds_stored_same [OF ok fits ne r, of h] kv0 show ?thesis
        by simp
    next
      case False
      with v have o: "valueCache st slot = Some kv0"
        by simp
      with cv have "len kv0 = int32 (int (length v)) \<longrightarrow> entry_in st kv0"
        by (auto simp: comparable_def lv)
      from equals_stored_old [OF ok fits this, of r h] e have e0: "equals st kv0 v = Inr True"
        by simp
      with agree o nz have t: "token_holds st (symID kv0) v"
        by (auto simp: tokens_agree_on_def)
      show ?thesis
      proof (cases "symID kv0 = r")
        case True
        with o e0 have "cached_under st v r"
          by (auto simp: cached_under_def)
        with k have "w = v"
          by simp
        with True token_holds_stored_same [OF ok _ _ r, of v h] fits token_holds_pools [OF t]
        show ?thesis by simp
      next
        case False
        then have "r \<noteq> symID kv0"
          by auto
        from token_holds_stored_other [OF ok fits t this] show ?thesis .
      qed
    qed
  qed
qed

lemma getset_agree:
  assumes ok: "pools_ok st" and fits: "fits st w" and cv: "comparable st v"
    and lv: "int32 (int (length v)) = int (length v)" and agree: "tokens_agree_on st v"
    and k: "cached_under st v r \<longrightarrow> w = v"
    and g: "getsetValueIDPair H I st w s m = Some (Inr (r, st'))"
  shows "tokens_agree_on st' v"
  using g
proof (cases rule: getset_cases)
  case zero
  from same_arena_agree [OF zero(2)] agree show ?thesis by simp
next
  case (bound st1 kv)
  from same_arena_preds [OF bound(2)] same_arena_agree [OF bound(2)] ok fits cv agree k
  have "pools_ok st1" "fits st1 w" "comparable st1 v" "tokens_agree_on st1 v"
    "cached_under st1 v r \<longrightarrow> w = v"
    by simp_all
  from alloc_agree [OF this(1-3) lv this(4,5) bound(1,3)] show ?thesis .
qed

lemma call_agree:
  assumes ok: "pools_ok st" and cv: "comparable st v"
    and lv: "int32 (int (length v)) = int (length v)" and agree: "tokens_agree_on st v"
    and d: "do_call H I st c = Some (Inr (r, st'))" and room: "room_for st c"
    and k: "\<And>x. cached_under st v x \<Longrightarrow> keeps x v c r"
  shows "tokens_agree_on st' v"
proof (cases c)
  case (Get_call w a)
  with d obtain i where g: "GetSymbolID H I st w a = Some (Inr (i, st'))" and r: "r = GaveID i"
    by (auto simp: do_call_def after_def split: option.splits sum.splits prod.splits)
  from Get_call room have fits: "fits st w"
    by (simp add: room_for_def copied_def)
  from Get_call k [of i] r have k': "cached_under st v i \<longrightarrow> w = v"
    by (auto simp: keeps_def)
  from g show ?thesis
  proof (cases rule: GetSymbolID_cases)
    case cached
    with agree show ?thesis by simp
  next
    case missed
    from getset_agree [OF ok fits cv lv agree k' missed(2)] show ?thesis .
  qed
next
  case (Set_call w s)
  with d obtain i where g: "getsetValueIDPair H I st w s (s = 0) = Some (Inr (i, st'))"
    and r: "r = GaveID i"
    by (auto simp: do_call_def after_def SetSymbolID_def split: option.splits sum.splits prod.splits)
  from Set_call room have fits: "fits st w"
    by (simp add: room_for_def copied_def)
  from Set_call k [of i] r have k': "cached_under st v i \<longrightarrow> w = v"
    by (auto simp: keeps_def)
  from getset_agree [OF ok fits cv lv agree k' g] show ?thesis .
next
  case (Lookup_call y)
  with d obtain b where l: "LookupID H st y = Some (Inr (b, st'))"
    by (auto simp: do_call_def after_def split: option.splits sum.splits prod.splits)
  from l show ?thesis
  proof (cases rule: LookupID_cases)
    case same
    with agree show ?thesis by simp
  next
    case (read d val kv)
    with Lookup_call room have fits: "fits st val"
      by (simp add: room_for_def copied_def)
    have "\<not> cached_under st v y"
    proof
      assume "cached_under st v y"
      with agree read(1) have "token_holds st y v"
        by (auto simp: cached_under_def tokens_agree_on_def)
      with read(2) show False
        by (simp add: token_holds_def)
    qed
    then have "cached_under st v y \<longrightarrow> val = v"
      by simp
    from alloc_agree [OF ok fits cv lv agree this read(1,5)] show ?thesis .
  qed
qed

section \<open>What the operations write to and read from the store\<close>

lemma store_frame:
  assumes "allocAndBindToID_store st buf bindID h = Inr (kv, st')"
  shows "db st' = db st \<and> opts st' = opts st"
  using assms
  by (auto simp: allocAndBindToID_store_def allocAndBindToID_grow_def copy_to_curBufPool_def Let_def
        split: sum.splits if_splits)

lemma alloc_frame:
  assumes "allocAndBindToID H st buf bindID = Some (Inr (kv, st'))"
  shows "db st' = db st \<and> opts st' = opts st"
  using assms
proof (cases rule: alloc_cases)
  case (hit h)
  then show ?thesis by simp
next
  case (store h f)
  then show ?thesis by (simp add: store_frame)
qed

lemma idKey_bytes:
  "idKey st sid = DbKeyPrefix (opts st) # WriteTo sid []" "drop 1 (idKey st sid) = WriteTo sid []"
  "length (WriteTo sid []) = 5"
  by (simp_all add: idKey_def WriteTo_def)


lemma txn_writes:
  assumes "getsetValueIDPair_txn I st d val s m = Inr (r, st1)" and "db st = Some d"
  shows "\<exists>d'. db st1 = Some d' \<and> refuses d' = refuses d \<and>
          (\<forall>k. items d' k \<noteq> items d k \<longrightarrow>
             k = valKey st val \<and> items d' k = Some (WriteTo r [])
             \<or> k = idKey st r \<and> items d' k = Some val)"
  using assms
  by (auto simp: getsetValueIDPair_txn_def Let_def idKey_bytes valKey_def idKey_def Commit_def
        split: if_splits option.splits sum.splits prod.splits)

lemma getset_writes:
  assumes "db st = Some d" and "getsetValueIDPair H I st val s m = Some (Inr (r, st'))"
  shows "\<exists>d'. db st' = Some d' \<and> refuses d' = refuses d \<and>
          (\<forall>k. items d' k \<noteq> items d k \<longrightarrow>
             k = valKey st val \<and> items d' k = Some (WriteTo r [])
             \<or> k = idKey st r \<and> items d' k = Some val)"
proof -
  from assms obtain st1 where t: "getsetValueIDPair_txn I st d val s m = Inr (r, st1)"
    and "db st' = db st1"
    by (auto simp: getsetValueIDPair_def split: option.splits sum.splits prod.splits if_splits
          dest: alloc_frame)
  with txn_writes [OF t assms(1)] show ?thesis by simp
qed

lemma getset_reads_forward_none:
  assumes "db st = Some d" and "items d (valKey st val) = None"
  shows "getsetValueIDPair H I st val 0 False = Some (Inr (0, st))"
  using assms by (simp add: getsetValueIDPair_def getsetValueIDPair_txn_def)

lemma ReadFrom_WriteTo_Nil:
  assumes "e < 2 ^ 40"
  shows "ReadFrom (WriteTo e []) = Inr (e, IDSz)"
  using ReadFrom_WriteTo [OF assms, of "[]"] by simp

lemma txn_reads_forward_some:
  assumes "items d (valKey st val) = Some (WriteTo e [])" and "e \<noteq> 0" and "e < 2 ^ 40"
  shows "getsetValueIDPair_txn I st d val 0 m = Inr (e, st)"
  using assms(1,2) ReadFrom_WriteTo_Nil [OF assms(3)]
  by (simp add: getsetValueIDPair_txn_def idKey_bytes IDSz_def)

lemma LookupID_reads_reverse_none:
  assumes "sid \<noteq> 0" and "tokenCache st sid = None" and "db st = Some d"
    and "items d (idKey st sid) = None"
  shows "LookupID H st sid = Some (Inr (None, st))"
  using assms by (simp add: LookupID_def)

lemma LookupID_reads_reverse_some:
  assumes "sid \<noteq> 0" and "tokenCache st sid = None" and "db st = Some d"
    and "items d (idKey st sid) = Some v"
    and ok: "pools_ok st" and fits: "fits st v" and c: "comparable st v"
    and ne: "v \<noteq> [] \<or> bufPools st \<noteq> []" and free: "valueCache st slot = None"
  shows "\<exists>st'. LookupID H st sid = Some (Inr (Some v, st'))"
proof -
  from allocAndBindToID_returns [OF ok fits c free, of H sid] obtain kv st'
    where a: "allocAndBindToID H st v sid = Some (Inr (kv, st'))"
    by blast
  from alloc_ok [OF ok fits c ne a] assms(1) have "bufForEntry st' kv = Inr (Some v)"
    by (simp add: bufForEntry_entry_in)
  with a assms(1-4) show ?thesis
    by (simp add: LookupID_def)
qed

section \<open>Running the operations on the example tables\<close>

lemmas table_eval =
  SetSymbolID_def GetSymbolID_def LookupID_def getsetValueIDPair_def getsetValueIDPair_txn_def
  allocAndBindToID_def allocAndBindToID_loop.simps getIDFromCache_def getIDFromCache_loop.simps
  allocAndBindToID_store_def allocAndBindToID_grow_def copy_to_curBufPool_def curBufPool_def
  equals_def bufForEntry_def index_pool_def slice_def int32_def max_int32_def valKey_def idKey_def
  WriteTo_def ReadFrom_def IDSz_def xValueIndex_def openTable_def Let_def after_def result_of_def
  failure_of_def stored_under_def db_table_def memory_table_def bound_table_def reopened_table_def
  refused_table_def empty_store_def refusing_store_def Commit_def
  example_opts_def alpha_def beta_def HashBuf_len_def IssueNextID_counter_def IssueNextID_failing_def HashBuf_zero_def bound_store_def reopened_store_def

section \<open>The claims\<close>

subsection \<open>C1: scenario E, two values bound to one ID\<close>

text \<open>
  C1, as amended.  Take any table whose pool bookkeeping is in order
  (\<open>pools_ok\<close>) and in which the cached entries of five bytes and of four bytes lie
  in the arena (\<open>comparable\<close> for "alpha" and for "beta"): by \<open>built_ok\<close>, every
  table built from a new one by calls that returned and had room is such a table.
  Let fewer than \<open>2^31 - 9\<close> bytes be used in the current pool, let there be fewer
  than \<open>2^31 - 2\<close> pools and two free slots in the value cache, and let "beta" not
  be cached under the ID 7.  Then the five calls of the scenario all return, and after
  \<open>SetSymbolID("alpha", 7)\<close> and \<open>SetSymbolID("beta", 7)\<close> the call
  \<open>LookupID(7)\<close> returns "beta", \<open>GetSymbolID("alpha", false)\<close> returns 7 and
  \<open>GetSymbolID("beta", false)\<close> returns 7.  This holds for every hash function,
  every issuer, and with or without a store.
\<close>

theorem C1_scenario_E:
  assumes ok: "pools_ok st" and ca: "comparable st alpha" and cb: "comparable st beta"
    and sz: "curBufPoolSz st + 9 < 2147483648" and np: "int (length (bufPools st)) < 2147483646"
    and free: "valueCache st s1 = None" "valueCache st s2 = None" "s1 \<noteq> s2"
    and nb: "\<not> cached_under st beta 7"
  shows "\<exists>st'. scenario_E H I st = Some (Inr ((Some beta, 7, 7), st'))"
proof -
  have la: "int32 (int (length alpha)) = int (length alpha)"
    and lb: "int32 (int (length beta)) = int (length beta)"
    by (simp_all add: int32_def)
  from ok sz np have fa: "fits st alpha"
    by (simp add: fits_def pools_ok_def)
  \<comment> \<open>the first call\<close>
  from SetSymbolID_returns [OF ok fa ca free(1), of 7 H I] obtain st1
    where s1: "SetSymbolID H I st alpha 7 = Some (Inr (7, st1))"
    by auto
  from s1 obtain sta kva where sa: "same_arena st sta"
    and aa: "allocAndBindToID H sta alpha 7 = Some (Inr (kva, st1))"
    by (rule SetSymbolID_cases) simp_all
  from same_arena_preds [OF sa] same_arena_agree [OF sa] ok ca cb fa nb free
  have oka: "pools_ok sta" and caa: "comparable sta alpha" and cba: "comparable sta beta"
    and faa: "fits sta alpha" and nba: "\<not> cached_under sta beta 7"
    and freea: "valueCache sta s1 = None" "valueCache sta s2 = None"
    by simp_all
  from sa sz np have sza: "curBufPoolSz sta + 9 < 2147483648" "int (length (bufPools sta)) < 2147483646"
    by (simp_all add: same_arena_def)
  from alloc_ok [OF oka faa caa _ aa] have ok1: "pools_ok st1"
    and ga: "getIDFromCache H st1 alpha = Some (Inr 7)"
    by simp_all
  have st1_props: "comparable st1 alpha \<and> comparable st1 beta \<and> fits st1 beta
      \<and> \<not> cached_under st1 beta 7 \<and> (\<exists>s. valueCache st1 s = None)"
    using aa
  proof (cases rule: alloc_cases)
    case (hit h)
    with caa cba nba sza oka freea show ?thesis
      by (auto simp: fits_def pools_ok_def)
  next
    case (store h f)
    with store_eq [OF oka faa, of 7 h] have st1: "st1 = stored_table sta alpha 7 h"
      by simp
    from free(3) have "s1 \<noteq> h \<or> s2 \<noteq> h"
      by auto
    with freea have "\<exists>s. valueCache (stored_table sta alpha 7 h) s = None"
      by auto
    with comparable_stored [OF oka faa caa, of 7 h] comparable_stored [OF oka faa cba, of 7 h]
      fits_stored [OF oka, of alpha beta 7 h] sza
      cached_under_stored [OF oka faa _ lb cba _ nba, of 7 h]
    show ?thesis
      unfolding st1 by simp
  qed
  then obtain s where free1: "valueCache st1 s = None"
    by blast
  \<comment> \<open>the second call\<close>
  from st1_props have fb1: "fits st1 beta" and cb1: "comparable st1 beta"
    by simp_all
  from SetSymbolID_returns [OF ok1 fb1 cb1 free1, of 7 H I] obtain st2
    where s2: "SetSymbolID H I st1 beta 7 = Some (Inr (7, st2))"
    by auto
  from s2 obtain stb kvb where sb: "same_arena st1 stb"
    and ab: "allocAndBindToID H stb beta 7 = Some (Inr (kvb, st2))"
    by (rule SetSymbolID_cases) simp_all
  from same_arena_preds [OF sb] same_arena_agree [OF sb] ok1 st1_props
  have okb: "pools_ok stb" and cab: "comparable stb alpha" and fb: "fits stb beta"
    and nbb: "\<not> cached_under stb beta 7"
    by simp_all
  from ab obtain h f where pb: "probes stb beta (H beta) h" and sbb: "stops_at stb beta h f"
    and st2: "st2 = stored_table stb beta 7 h" and kvb: "kvb = stored_entry stb beta 7"
  proof (cases rule: alloc_cases)
    case (hit h)
    then have "cached_under stb beta 7"
      by (auto simp: cached_under_def stops_at_def)
    with nbb show ?thesis ..
  next
    case (store h f)
    with store_eq [OF okb fb, of 7 h] that show ?thesis by simp
  qed
  from same_arena_preds [OF sb] st1_props have cbb: "comparable stb beta"
    by simp
  \<comment> \<open>the three queries\<close>
  have "bufForEntry st2 kvb = Inr (Some beta)"
    unfolding st2 kvb using entry_in_stored_new [OF okb fb, of 7 h]
    by (simp add: bufForEntry_entry_in)
  moreover have "tokenCache st2 7 = Some kvb"
    unfolding st2 kvb by simp
  ultimately have l: "LookupID H st2 7 = Some (Inr (Some beta, st2))"
    by (simp add: LookupID_def)
  from same_arena_getIDFromCache [OF sb ga]
  obtain ha fa' where pa: "probes stb alpha (H alpha) ha" and saa: "stops_at stb alpha ha fa'"
    and "7 = found_ID fa'"
    unfolding getIDFromCache_def by (blast dest: get_loop_probes)
  then obtain kv where fa': "fa' = Some kv" "symID kv = 7"
    by (cases fa') (auto simp: found_ID_def)
  from get_other_after_store [where H = H, OF okb fb _ sbb la cab _ pa saa [unfolded fa'], of 7] fa'
  have "getIDFromCache H st2 alpha = Some (Inr 7)"
    unfolding st2 by simp
  then have a: "GetSymbolID H I st2 alpha False = Some (Inr (7, st2))"
    by (simp add: GetSymbolID_def)
  from get_after_store [where H = H, OF okb fb cbb _ pb, of 7]
  have "getIDFromCache H st2 beta = Some (Inr 7)"
    unfolding st2 by simp
  then have b: "GetSymbolID H I st2 beta False = Some (Inr (7, st2))"
    by (simp add: GetSymbolID_def)
  from s1 s2 l a b show ?thesis
    by (simp add: scenario_E_def after_def)
qed

text \<open>
  Witness for C1: a new table over an empty store, with a hash function under which
  "alpha" and "beta" collide; the result of the scenario comes from the theorem.
\<close>

theorem C1_scenario_E_witness:
  "pools_ok db_table \<and> comparable db_table alpha \<and> comparable db_table beta
   \<and> curBufPoolSz db_table + 9 < 2147483648 \<and> int (length (bufPools db_table)) < 2147483646
   \<and> valueCache db_table 0 = None \<and> valueCache db_table 1 = None
   \<and> \<not> cached_under db_table beta 7
   \<and> result_of (scenario_E HashBuf_zero IssueNextID_counter db_table) = Some (Some beta, 7, 7)"
proof -
  note o = openTable_ok [of "Some empty_store" example_opts, folded db_table_def]
  have s: "curBufPoolSz db_table + 9 < 2147483648" "int (length (bufPools db_table)) < 2147483646"
    by (simp_all add: o)
  have "(0 :: 64 word) \<noteq> 1"
    by simp
  from C1_scenario_E [OF o(1) o(2) o(2) s o(5) o(5) this o(4), of HashBuf_zero IssueNextID_counter]
  obtain st' where "scenario_E HashBuf_zero IssueNextID_counter db_table = Some (Inr ((Some beta, 7, 7), st'))"
    by blast
  then have "result_of (scenario_E HashBuf_zero IssueNextID_counter db_table) = Some (Some beta, 7, 7)"
    by (simp add: result_of_def)
  with o s show ?thesis
    by simp
qed

text \<open>
  Counterexample to C1 as the spec states it: on a new table over an empty store,
  with neither value interned, the scenario ends with \<open>GetSymbolID("alpha", false)\<close>
  returning 7, not 0.
\<close>

theorem C1_counterexample:
  "result_of (scenario_E HashBuf_len IssueNextID_counter db_table) = Some (Some beta, 7, 7)
   \<and> result_of (scenario_E HashBuf_len IssueNextID_counter db_table) \<noteq> Some (Some beta, 0, 7)"
proof -
  have "result_of (scenario_E HashBuf_len IssueNextID_counter db_table) = Some (Some beta, 7, 7)"
    by code_simp
  then show ?thesis
    by simp
qed

subsection \<open>C2: the ID of an interned value leads back to the value\<close>

text \<open>
  C2, as amended.  Take a table whose pool bookkeeping is in order and in which
  every value-cache entry that equals \<open>v\<close> and carries a non-zero ID has, under that
  ID, a token-cache entry that lies in the arena and holds \<open>v\<close>
  (\<open>tokens_agree_on\<close>), and a value \<open>v\<close> that fits and is not the empty value on a
  table without a pool.  If \<open>GetSymbolID(v, true)\<close> returns the non-zero ID \<open>x\<close>,
  then \<open>LookupID(x)\<close> returns \<open>v\<close> and changes nothing, on the table that call
  leaves and on every table reached from it by calls of \<open>GetSymbolID\<close>,
  \<open>SetSymbolID\<close> and \<open>LookupID\<close> that return, have room for the value they copy,
  and do not return \<open>x\<close> for a value other than \<open>v\<close> (\<open>later\<close>).

  The agreement asked of the table holds on a new table (\<open>openTable_ok\<close>) and when
  no cached entry equals \<open>v\<close> (\<open>tokens_agree_on_uncached\<close>), and a call keeps it
  that returns, has room and does not return, for another value, an ID under which
  \<open>v\<close> is cached (\<open>call_agree\<close>).
\<close>

theorem C2_GetSymbolID_then_LookupID:
  assumes ok: "pools_ok st" and fits: "fits st v" and ne: "v \<noteq> [] \<or> bufPools st \<noteq> []"
    and agree: "tokens_agree_on st v"
    and g: "GetSymbolID H I st v True = Some (Inr (x, st'))" and x: "x \<noteq> 0"
    and l: "later H I x v st' st''"
  shows "LookupID H st'' x = Some (Inr (Some v, st''))"
proof -
  from GetSymbolID_token [OF ok fits ne agree g x]
  have "pools_ok st'" "token_holds st' x v"
    by simp_all
  from later_keeps [OF l this x] have "token_holds st'' x v"
    by simp
  then show ?thesis
    using x by (rule token_lookup)
qed

text \<open>
  Witness for C2: "alpha" interned in a new table over an empty store, then "beta"
  interned, then the ID of "alpha" looked up.
\<close>

theorem C2_witness:
  "pools_ok db_table \<and> fits db_table alpha \<and> tokens_agree_on db_table alpha
   \<and> result_of (GetSymbolID HashBuf_len IssueNextID_counter db_table alpha True) = Some 1
   \<and> result_of (after (GetSymbolID HashBuf_len IssueNextID_counter db_table alpha True)
        (\<lambda>x st1. do_call HashBuf_len IssueNextID_counter st1 (Get_call beta True))) = Some (GaveID 2)
   \<and> result_of (after (GetSymbolID HashBuf_len IssueNextID_counter db_table alpha True)
        (\<lambda>x st1. after (do_call HashBuf_len IssueNextID_counter st1 (Get_call beta True))
        (\<lambda>r st2. LookupID HashBuf_len st2 x))) = Some (Some alpha)"
proof -
  note o = openTable_ok [of "Some empty_store" example_opts, folded db_table_def]
  have f: "fits db_table alpha"
    by (simp add: fits_def o)
  have ne: "alpha \<noteq> [] \<or> bufPools db_table \<noteq> []"
    by simp
  have r: "result_of (GetSymbolID HashBuf_len IssueNextID_counter db_table alpha True) = Some 1"
    by code_simp
  then obtain st1 where g: "GetSymbolID HashBuf_len IssueNextID_counter db_table alpha True = Some (Inr (1, st1))"
    by (blast dest: result_ofD)
  have r2: "result_of (after (GetSymbolID HashBuf_len IssueNextID_counter db_table alpha True)
        (\<lambda>x st1. do_call HashBuf_len IssueNextID_counter st1 (Get_call beta True))) = Some (GaveID 2)"
    by code_simp
  with g have "result_of (do_call HashBuf_len IssueNextID_counter st1 (Get_call beta True)) = Some (GaveID 2)"
    by (simp add: after_def)
  then obtain st2 where d: "do_call HashBuf_len IssueNextID_counter st1 (Get_call beta True) = Some (Inr (GaveID 2, st2))"
    by (blast dest: result_ofD)
  have "result_of (after (GetSymbolID HashBuf_len IssueNextID_counter db_table alpha True)
        (\<lambda>x st1. Some (Inr (room_for st1 (Get_call beta True), st1)))) = Some True"
    by code_simp
  with g have room: "room_for st1 (Get_call beta True)"
    by (simp add: after_def result_of_def)
  have k: "keeps 1 alpha (Get_call beta True) (GaveID 2)"
    by (simp add: keeps_def)
  have "later HashBuf_len IssueNextID_counter 1 alpha st1 st2"
    by (rule later_call [OF later_now d room k])
  from C2_GetSymbolID_then_LookupID [OF o(1) f ne o(3) g _ this]
  have "LookupID HashBuf_len st2 1 = Some (Inr (Some alpha, st2))"
    by simp
  with g d have "result_of (after (GetSymbolID HashBuf_len IssueNextID_counter db_table alpha True)
        (\<lambda>x st1. after (do_call HashBuf_len IssueNextID_counter st1 (Get_call beta True))
        (\<lambda>r st2. LookupID HashBuf_len st2 x))) = Some (Some alpha)"
    by (simp add: after_def result_of_def)
  with o f r r2 show ?thesis
    by simp
qed

text \<open>
  Counterexamples to C2 as stated.  After the two bindings of scenario E,
  \<open>GetSymbolID("alpha", true)\<close> returns 7 and \<open>LookupID(7)\<close> returns "beta".
  And on a new table, after \<open>GetSymbolID("alpha", true)\<close> has returned 1, the call
  \<open>SetSymbolID("beta", 1)\<close> makes \<open>LookupID(1)\<close> return "beta".
\<close>

theorem C2_counterexample:
  "result_of (after (rebound_table HashBuf_len IssueNextID_counter db_table) (\<lambda>r st.
     after (GetSymbolID HashBuf_len IssueNextID_counter st alpha True) (\<lambda>x st1.
     after (LookupID HashBuf_len st1 x) (\<lambda>v st2. Some (Inr ((x, v), st2))))))
   = Some (7, Some beta)
   \<and> result_of (after (GetSymbolID HashBuf_len IssueNextID_counter db_table alpha True) (\<lambda>x st1.
     after (SetSymbolID HashBuf_len IssueNextID_counter st1 beta x) (\<lambda>r st2.
     after (LookupID HashBuf_len st2 x) (\<lambda>v st3. Some (Inr ((x, v), st3))))))
   = Some (1, Some beta)"
  by code_simp

subsection \<open>C3: interning twice\<close>

text \<open>
  C3, as amended.  Take a table whose pool bookkeeping is in order and in which the
  cached entries of the length of \<open>v\<close> lie in the arena (by \<open>built_ok\<close>, every table
  built from a new one is such a table for a non-empty \<open>v\<close>), and a value \<open>v\<close> that
  fits and is not the empty value on a table without a pool.  If the first
  \<open>GetSymbolID(v, true)\<close> returns a non-zero ID \<open>x\<close>, then every further
  \<open>GetSymbolID(v, true)\<close> returns \<open>x\<close> and leaves the whole table as it is: the
  caches, the store and the issuer.  The first call does return a non-zero ID when a
  slot of the value cache is free and the issuer gives a non-zero ID and no error.
\<close>

theorem C3_GetSymbolID_idempotent:
  assumes ok: "pools_ok st" and fits: "fits st v" and c: "comparable st v"
    and ne: "v \<noteq> [] \<or> bufPools st \<noteq> []"
  shows "(GetSymbolID H I st v True = Some (Inr (x, st')) \<longrightarrow> x \<noteq> 0 \<longrightarrow>
            times n (\<lambda>s. GetSymbolID H I s v True) st' = Some (Inr (replicate n x, st')))
       \<and> (valueCache st slot = None \<longrightarrow> I (Issuer (opts st)) = ((i, False), iss) \<longrightarrow> i \<noteq> 0 \<longrightarrow>
            (\<exists>y st1. GetSymbolID H I st v True = Some (Inr (y, st1)) \<and> y \<noteq> 0))"
proof (intro conjI impI)
  assume g: "GetSymbolID H I st v True = Some (Inr (x, st'))" and x: "x \<noteq> 0"
  from GetSymbolID_binds [OF ok fits c ne g x] have "getIDFromCache H st' v = Some (Inr x)" .
  with x have "GetSymbolID H I st' v True = Some (Inr (x, st'))"
    by (simp add: GetSymbolID_def)
  then show "times n (\<lambda>s. GetSymbolID H I s v True) st' = Some (Inr (replicate n x, st'))"
    by (rule times_fixed)
next
  assume "valueCache st slot = None" "I (Issuer (opts st)) = ((i, False), iss)" "i \<noteq> 0"
  from GetSymbolID_returns [where I = I, OF ok fits c this]
  show "\<exists>y st1. GetSymbolID H I st v True = Some (Inr (y, st1)) \<and> y \<noteq> 0" .
qed

text \<open>Witness for C3: "alpha" interned in a new table without a store, then three more times.\<close>

theorem C3_witness:
  "pools_ok memory_table \<and> fits memory_table alpha \<and> comparable memory_table alpha
   \<and> valueCache memory_table 0 = None
   \<and> IssueNextID_counter (Issuer (opts memory_table)) = ((1, False), 1)
   \<and> result_of (GetSymbolID HashBuf_len IssueNextID_counter memory_table alpha True) = Some 1
   \<and> result_of (after (GetSymbolID HashBuf_len IssueNextID_counter memory_table alpha True)
        (\<lambda>x st. times 3 (\<lambda>s. GetSymbolID HashBuf_len IssueNextID_counter s alpha True) st))
      = Some [1, 1, 1]"
proof -
  note o = openTable_ok [of None example_opts, folded memory_table_def]
  have f: "fits memory_table alpha"
    by (simp add: fits_def o)
  have ne: "alpha \<noteq> [] \<or> bufPools memory_table \<noteq> []"
    by simp
  have i: "IssueNextID_counter (Issuer (opts memory_table)) = ((1, False), 1)"
    by (simp add: memory_table_def openTable_def example_opts_def IssueNextID_counter_def)
  have r: "result_of (GetSymbolID HashBuf_len IssueNextID_counter memory_table alpha True) = Some 1"
    by code_simp
  note c = C3_GetSymbolID_idempotent [OF o(1) f o(2) ne, where H = HashBuf_len
      and I = IssueNextID_counter and slot = 0 and i = 1 and iss = 1 and n = 3]
  from c [THEN conjunct2] o(5) i obtain y st1
    where g: "GetSymbolID HashBuf_len IssueNextID_counter memory_table alpha True = Some (Inr (y, st1))"
      and y: "y \<noteq> 0"
    by auto
  from c [THEN conjunct1, of y st1] g y
  have "times 3 (\<lambda>s. GetSymbolID HashBuf_len IssueNextID_counter s alpha True) st1
          = Some (Inr (replicate 3 y, st1))"
    by simp
  moreover from g r have "y = 1"
    by (simp add: result_of_def)
  ultimately have "result_of (after (GetSymbolID HashBuf_len IssueNextID_counter memory_table alpha True)
        (\<lambda>x st. times 3 (\<lambda>s. GetSymbolID HashBuf_len IssueNextID_counter s alpha True) st))
      = Some [1, 1, 1]"
    using g by (simp add: after_def result_of_def numeral_3_eq_3)
  with o f i r show ?thesis
    by simp
qed

text \<open>
  Counterexample to C3 as stated, with an issuer that fails.  On a new table without
  a store the error is dropped and \<open>GetSymbolID("alpha", true)\<close> returns the zero ID,
  twice in a row; on a new table over an empty store the call ends in \<open>panic(err)\<close>.
\<close>

theorem C3_counterexample:
  "result_of (GetSymbolID HashBuf_len IssueNextID_failing memory_table alpha True) = Some 0
   \<and> result_of (times 2 (\<lambda>s. GetSymbolID HashBuf_len IssueNextID_failing s alpha True) memory_table)
       = Some [0, 0]
   \<and> failure_of (GetSymbolID HashBuf_len IssueNextID_failing db_table alpha True) = Some IssuerError"
  by code_simp

subsection \<open>C4: an explicit ID with \<open>mapID\<close> set\<close>




subsection \<open>C5: the keys and values in the store\<close>

text \<open>
  C5, as amended.  A forward entry has the key
  \<open>[DbKeyPrefix][0xFF][0xFE][value bytes]\<close> and holds the ID in five bytes; a
  reverse entry has the key \<open>[DbKeyPrefix][ID in five bytes]\<close>, with no \<open>0xFF\<close>
  after the prefix, and holds the value bytes (C7 gives the byte order).  Every entry
  that the transaction of \<open>getsetValueIDPair\<close> changes in the store, and so every
  entry that a call of \<open>getsetValueIDPair\<close> changes, is one of these two for the
  value and the ID it returns.  \<open>getsetValueIDPair\<close> reads the forward entry under
  the first key: with no entry there it returns 0 when it may not issue an ID, and
  with the five bytes of a non-zero ID there its transaction returns that ID.
  \<open>LookupID\<close> of an ID that is not in the token cache reads the reverse entry under
  the second key: with no entry there it returns nil, and with the bytes \<open>v\<close> there
  it returns \<open>v\<close> (when the pool bookkeeping is in order, \<open>v\<close> fits and is not the
  empty value on a table without a pool, the cached entries of its length lie in the
  arena and a slot of the value cache is free).
\<close>

theorem C5_store_keys:
  "valKey st val = [DbKeyPrefix (opts st), 0xFF, 0xFE] @ val
   \<and> idKey st sid = DbKeyPrefix (opts st) # WriteTo sid []
   \<and> length (WriteTo sid []) = 5
   \<and> (db st = Some d \<longrightarrow> getsetValueIDPair_txn I st d val s m = Inr (r, st') \<longrightarrow>
        (\<exists>d'. db st' = Some d' \<and>
           (\<forall>k. items d' k \<noteq> items d k \<longrightarrow>
              k = valKey st val \<and> items d' k = Some (WriteTo r [])
              \<or> k = idKey st r \<and> items d' k = Some val)))
   \<and> (db st = Some d \<longrightarrow> getsetValueIDPair H I st val s m = Some (Inr (r, st')) \<longrightarrow>
        (\<exists>d'. db st' = Some d' \<and>
           (\<forall>k. items d' k \<noteq> items d k \<longrightarrow>
              k = valKey st val \<and> items d' k = Some (WriteTo r [])
              \<or> k = idKey st r \<and> items d' k = Some val)))
   \<and> (db st = Some d \<longrightarrow> items d (valKey st val) = None \<longrightarrow>
        getsetValueIDPair H I st val 0 False = Some (Inr (0, st)))
   \<and> (items d (valKey st val) = Some (WriteTo e []) \<longrightarrow> e \<noteq> 0 \<longrightarrow> e < 2 ^ 40 \<longrightarrow>
        getsetValueIDPair_txn I st d val 0 m1 = Inr (e, st))
   \<and> (sid \<noteq> 0 \<longrightarrow> tokenCache st sid = None \<longrightarrow> db st = Some d \<longrightarrow> items d (idKey st sid) = None \<longrightarrow>
        LookupID H st sid = Some (Inr (None, st)))
   \<and> (sid \<noteq> 0 \<longrightarrow> tokenCache st sid = None \<longrightarrow> db st = Some d \<longrightarrow> items d (idKey st sid) = Some v \<longrightarrow>
        pools_ok st \<longrightarrow> fits st v \<longrightarrow> comparable st v \<longrightarrow> (v \<noteq> [] \<or> bufPools st \<noteq> []) \<longrightarrow>
        valueCache st slot = None \<longrightarrow>
        (\<exists>st2. LookupID H st sid = Some (Inr (Some v, st2))))"
proof -
  have "valKey st val = [DbKeyPrefix (opts st), 0xFF, 0xFE] @ val"
    by (simp add: valKey_def xValueIndex_def)
  moreover note idKey_bytes(1) [of st sid] idKey_bytes(3) [of sid]
  moreover have "db st = Some d \<longrightarrow> getsetValueIDPair_txn I st d val s m = Inr (r, st') \<longrightarrow>
        (\<exists>d'. db st' = Some d' \<and>
           (\<forall>k. items d' k \<noteq> items d k \<longrightarrow>
              k = valKey st val \<and> items d' k = Some (WriteTo r [])
              \<or> k = idKey st r \<and> items d' k = Some val))"
    using txn_writes [of I st d val s m r st'] by blast
  moreover have "db st = Some d \<longrightarrow> getsetValueIDPair H I st val s m = Some (Inr (r, st')) \<longrightarrow>
        (\<exists>d'. db st' = Some d' \<and>
           (\<forall>k. items d' k \<noteq> items d k \<longrightarrow>
              k = valKey st val \<and> items d' k = Some (WriteTo r [])
              \<or> k = idKey st r \<and> items d' k = Some val))"
    using getset_writes [of st d H I val s m r st'] by blast
  moreover have "db st = Some d \<longrightarrow> items d (valKey st val) = None \<longrightarrow>
        getsetValueIDPair H I st val 0 False = Some (Inr (0, st))"
    using getset_reads_forward_none [of st d val H I] by blast
  moreover have "items d (valKey st val) = Some (WriteTo e []) \<longrightarrow> e \<noteq> 0 \<longrightarrow> e < 2 ^ 40 \<longrightarrow>
        getsetValueIDPair_txn I st d val 0 m1 = Inr (e, st)"
    using txn_reads_forward_some [of d st val e I m1] by blast
  moreover have "sid \<noteq> 0 \<longrightarrow> tokenCache st sid = None \<longrightarrow> db st = Some d \<longrightarrow> items d (idKey st sid) = None \<longrightarrow>
        LookupID H st sid = Some (Inr (None, st))"
    using LookupID_reads_reverse_none [of sid st d H] by blast
  moreover have "sid \<noteq> 0 \<longrightarrow> tokenCache st sid = None \<longrightarrow> db st = Some d \<longrightarrow> items d (idKey st sid) = Some v \<longrightarrow>
        pools_ok st \<longrightarrow> fits st v \<longrightarrow> comparable st v \<longrightarrow> (v \<noteq> [] \<or> bufPools st \<noteq> []) \<longrightarrow>
        valueCache st slot = None \<longrightarrow>
        (\<exists>st2. LookupID H st sid = Some (Inr (Some v, st2)))"
    using LookupID_reads_reverse_some [of sid st d v slot H] by blast
  ultimately show ?thesis
    by (intro conjI)
qed

text \<open>
  Witness for C5.  On a new table over an empty store: \<open>SetSymbolID("alpha", 7)\<close>
  and its transaction leave the key \<open>[9]\<close> alone, and both reads find nothing.  On a
  table opened on the store that call leaves: the forward read gives 7 and the
  reverse read gives "alpha".
\<close>

theorem C5_witness:
  "valKey db_table alpha = [1, 0xFF, 0xFE, 0x61, 0x6C, 0x70, 0x68, 0x61]
   \<and> idKey db_table 7 = [1, 0, 0, 0, 0, 7]
   \<and> (\<exists>st1 d'. getsetValueIDPair_txn IssueNextID_counter db_table empty_store alpha 7 False = Inr (7, st1)
         \<and> db st1 = Some d' \<and> items d' [9] = None)
   \<and> result_of (SetSymbolID HashBuf_len IssueNextID_counter db_table alpha 7) = Some 7
   \<and> stored_under (SetSymbolID HashBuf_len IssueNextID_counter db_table alpha 7) [9] = None
   \<and> getsetValueIDPair HashBuf_len IssueNextID_counter db_table alpha 0 False = Some (Inr (0, db_table))
   \<and> LookupID HashBuf_len db_table 7 = Some (Inr (None, db_table))
   \<and> getsetValueIDPair_txn IssueNextID_counter reopened_table reopened_store alpha 0 False
       = Inr (7, reopened_table)
   \<and> result_of (LookupID HashBuf_len reopened_table 7) = Some (Some alpha)"
proof -
  note defs = db_table_def reopened_table_def openTable_def example_opts_def alpha_def valKey_def
    idKey_def WriteTo_def xValueIndex_def
  have k1: "valKey db_table alpha = [1, 0xFF, 0xFE, 0x61, 0x6C, 0x70, 0x68, 0x61]"
    and k2: "idKey db_table 7 = [1, 0, 0, 0, 0, 7]"
    by (simp_all add: defs)
  have e: "items empty_store k = None" for k
    by (simp add: empty_store_def)
  have d0: "db db_table = Some empty_store"
    by (simp add: db_table_def openTable_def)
  \<comment> \<open>the transaction\<close>
  have "(7 :: ID) \<noteq> 0"
    by simp
  from txn_explicit [OF this, of IssueNextID_counter db_table empty_store alpha False]
  obtain st1 where t: "getsetValueIDPair_txn IssueNextID_counter db_table empty_store alpha 7 False = Inr (7, st1)"
    by blast
  note c0 = C5_store_keys [where st = db_table and val = alpha and sid = 7 and d = empty_store
      and H = HashBuf_len and I = IssueNextID_counter and s = 7 and m = False and r = 7 and st' = st1]
  from c0 [THEN conjunct2, THEN conjunct2, THEN conjunct2, THEN conjunct1] d0 t
  obtain d1 where d1: "db st1 = Some d1"
    and ch1: "\<And>k. items d1 k \<noteq> items empty_store k \<Longrightarrow>
              k = valKey db_table alpha \<and> items d1 k = Some (WriteTo 7 [])
              \<or> k = idKey db_table 7 \<and> items d1 k = Some alpha"
    by blast
  have "items d1 [9] = None"
  proof (rule ccontr)
    assume "items d1 [9] \<noteq> None"
    then have "items d1 [9] \<noteq> items empty_store [9]" by (simp add: e)
    from ch1 [OF this] k1 k2 show False by simp
  qed
  with t d1 have w0: "\<exists>st1 d'. getsetValueIDPair_txn IssueNextID_counter db_table empty_store alpha 7 False = Inr (7, st1)
         \<and> db st1 = Some d' \<and> items d' [9] = None"
    by blast
  \<comment> \<open>the call\<close>
  have r: "result_of (SetSymbolID HashBuf_len IssueNextID_counter db_table alpha 7) = Some 7"
    by code_simp
  then obtain st' where g:
    "getsetValueIDPair HashBuf_len IssueNextID_counter db_table alpha 7 False = Some (Inr (7, st'))"
    unfolding SetSymbolID_def by (auto dest: result_ofD)
  note c1 = C5_store_keys [where st = db_table and val = alpha and sid = 7 and d = empty_store
      and H = HashBuf_len and I = IssueNextID_counter and s = 7 and m = False and r = 7 and st' = st']
  from c1 [THEN conjunct2, THEN conjunct2, THEN conjunct2, THEN conjunct2, THEN conjunct1] d0 g
  obtain d' where d': "db st' = Some d'"
    and ch: "\<And>k. items d' k \<noteq> items empty_store k \<Longrightarrow>
              k = valKey db_table alpha \<and> items d' k = Some (WriteTo 7 [])
              \<or> k = idKey db_table 7 \<and> items d' k = Some alpha"
    by blast
  have "items d' [9] = None"
  proof (rule ccontr)
    assume "items d' [9] \<noteq> None"
    then have "items d' [9] \<noteq> items empty_store [9]" by (simp add: e)
    from ch [OF this] k1 k2 show False by simp
  qed
  with d' g have w: "stored_under (SetSymbolID HashBuf_len IssueNextID_counter db_table alpha 7) [9] = None"
    by (simp add: stored_under_def SetSymbolID_def)
  \<comment> \<open>reading nothing\<close>
  from c1 [THEN conjunct2, THEN conjunct2, THEN conjunct2, THEN conjunct2, THEN conjunct2, THEN conjunct1]
    d0 e
  have n1: "getsetValueIDPair HashBuf_len IssueNextID_counter db_table alpha 0 False = Some (Inr (0, db_table))"
    by simp
  have tc0: "tokenCache db_table 7 = None"
    by (simp add: db_table_def openTable_def)
  from c1 [THEN conjunct2, THEN conjunct2, THEN conjunct2, THEN conjunct2, THEN conjunct2, THEN conjunct2,
      THEN conjunct2, THEN conjunct1] d0 tc0 e
  have n2: "LookupID HashBuf_len db_table 7 = Some (Inr (None, db_table))"
    by simp
  \<comment> \<open>reading the two entries\<close>
  note o = openTable_ok [of "Some reopened_store" example_opts, folded reopened_table_def]
  have d2: "db reopened_table = Some reopened_store"
    by (simp add: reopened_table_def openTable_def)
  have f: "items reopened_store (valKey reopened_table alpha) = Some (WriteTo 7 [])"
    and b: "items reopened_store (idKey reopened_table 7) = Some alpha"
    by (simp_all add: defs reopened_store_def)
  note c2 = C5_store_keys [where st = reopened_table and val = alpha and sid = 7 and d = reopened_store
      and H = HashBuf_len and I = IssueNextID_counter and e = 7 and ?m1.0 = False and v = alpha
      and slot = 0]
  from c2 [THEN conjunct2, THEN conjunct2, THEN conjunct2, THEN conjunct2, THEN conjunct2, THEN conjunct2,
      THEN conjunct1] f
  have p1: "getsetValueIDPair_txn IssueNextID_counter reopened_table reopened_store alpha 0 False
       = Inr (7, reopened_table)"
    by simp
  have tc: "tokenCache reopened_table 7 = None" and ft: "fits reopened_table alpha"
    by (simp_all add: reopened_table_def fits_def openTable_def)
  from c2 [THEN conjunct2, THEN conjunct2, THEN conjunct2, THEN conjunct2, THEN conjunct2, THEN conjunct2,
      THEN conjunct2, THEN conjunct2] d2 b tc ft o(1) o(2) [of alpha] o(5) [of 0]
  obtain st2 where "LookupID HashBuf_len reopened_table 7 = Some (Inr (Some alpha, st2))"
    by auto
  then have p2: "result_of (LookupID HashBuf_len reopened_table 7) = Some (Some alpha)"
    by (simp add: result_of_def)
  from k1 k2 w0 r w n1 n2 p1 p2 show ?thesis
    by (intro conjI)
qed

text \<open>
  Counterexample to C5 as stated: after \<open>SetSymbolID("alpha", 7)\<close> on a new table
  with prefix 1 over an empty store, nothing is stored under
  \<open>[1][0xFF][0,0,0,0,7]\<close>; the reverse entry is under \<open>[1][0,0,0,0,7]\<close>.
\<close>

theorem C5_counterexample:
  "stored_under (SetSymbolID HashBuf_len IssueNextID_counter db_table alpha 7) [1, 0xFF, 0, 0, 0, 0, 7] = None
   \<and> stored_under (SetSymbolID HashBuf_len IssueNextID_counter db_table alpha 7) [1, 0, 0, 0, 0, 7]
       = Some alpha"
  by (simp add: table_eval)

subsection \<open>C6: \<open>SetSymbolID\<close> with the zero ID\<close>

text \<open>
  C6 at a failing input.  On a table without a store in which "alpha" has the ID 1,
  \<open>GetSymbolID("alpha", true)\<close> returns 1, while \<open>SetSymbolID("alpha", 0)\<close>
  issues and returns the new ID 2.
\<close>

theorem C6_SetSymbolID_zero_without_store:
  "result_of (after (GetSymbolID HashBuf_len IssueNextID_counter memory_table alpha True)
      (\<lambda>x st. GetSymbolID HashBuf_len IssueNextID_counter st alpha True)) = Some 1
   \<and> result_of (after (GetSymbolID HashBuf_len IssueNextID_counter memory_table alpha True)
      (\<lambda>x st. SetSymbolID HashBuf_len IssueNextID_counter st alpha 0)) = Some 2"
  by code_simp

subsection \<open>C8: cache entries and the pools\<close>

text \<open>
  C8 at a failing input.  Interning the empty value in a new table stores, in both
  caches, an entry whose pool index is \<open>-1\<close> while there is no pool; \<open>LookupID\<close>
  of its ID and a second \<open>GetSymbolID\<close> of the empty value then index
  \<open>bufPools\<close> out of range.
\<close>

theorem C8_empty_value_entry:
  "result_of (after (GetSymbolID HashBuf_len IssueNextID_counter db_table [] True)
      (\<lambda>x st. Some (Inr ((x, tokenCache st x, valueCache st (HashBuf_len []), bufPools st), st))))
     = Some (1, Some \<lparr>symID = 1, poolIdx = - 1, poolOfs = 0, len = 0\<rparr>,
                Some \<lparr>symID = 1, poolIdx = - 1, poolOfs = 0, len = 0\<rparr>, [])
   \<and> failure_of (after (GetSymbolID HashBuf_len IssueNextID_counter db_table [] True)
        (\<lambda>x st. LookupID HashBuf_len st x)) = Some IndexOutOfRange
   \<and> failure_of (after (GetSymbolID HashBuf_len IssueNextID_counter db_table [] True)
        (\<lambda>x st. GetSymbolID HashBuf_len IssueNextID_counter st [] True)) = Some IndexOutOfRange"
  by code_simp

subsection \<open>C9: one session slot\<close>

text \<open>
  C9.  With a session in the slot, \<open>Call_SessionBegin\<close> returns 0 and changes
  nothing: no call reaches the host or the service and the session stays.  With the
  slot empty it starts a host with the two paths, and when \<open>StartService\<close> and
  \<open>NewLibSession\<close> return no error it returns 12345 with the new session in the
  slot.  It returns a non-zero handle in no other case.
\<close>

theorem C9_Call_SessionBegin_single_slot:
  "(gLibSession g \<noteq> None \<longrightarrow> Call_SessionBegin se ns g u d c = (0, g))
   \<and> (gLibSession g = None \<longrightarrow>
        take (Suc (length (calls g))) (calls (snd (Call_SessionBegin se ns g u d c)))
          = calls g @ [StartNewHost c d])
   \<and> (gLibSession g = None \<longrightarrow> \<not> se \<longrightarrow> \<not> snd ns \<longrightarrow>
        Call_SessionBegin se ns g u d c =
          (12345, g\<lparr>gLibSession := fst ns, gLibService := Some DefaultLibServiceOpts,
                    calls := calls g @ [StartNewHost c d, StartService, NewLibSession]\<rparr>))
   \<and> (fst (Call_SessionBegin se ns g u d c) \<noteq> 0 \<longrightarrow> gLibSession g = None \<and> \<not> se \<and> \<not> snd ns)"
  by (cases ns) (auto simp: Call_SessionBegin_def Let_def)

text \<open>Witness for C9: a call with a session in the slot, and a call that succeeds.\<close>

theorem C9_witness:
  "gLibSession in_session \<noteq> None
   \<and> Call_SessionBegin False (Some 2, False) in_session ''user'' ''data'' ''cache'' = (0, in_session)
   \<and> gLibSession no_session = None
   \<and> Call_SessionBegin False (Some 1, False) no_session ''user'' ''data'' ''cache'' = (12345, in_session)"
proof -
  have a: "gLibSession in_session \<noteq> None" and b: "gLibSession no_session = None"
    by (simp_all add: in_session_def no_session_def)
  from C9_Call_SessionBegin_single_slot [of in_session False "(Some 2, False)" "''user''" "''data''" "''cache''"] a
  have c: "Call_SessionBegin False (Some 2, False) in_session ''user'' ''data'' ''cache'' = (0, in_session)"
    by blast
  from C9_Call_SessionBegin_single_slot [of no_session False "(Some 1, False)" "''user''" "''data''" "''cache''"] b
  have "Call_SessionBegin False (Some 1, False) no_session ''user'' ''data'' ''cache'' = (12345, in_session)"
    by (simp add: in_session_def no_session_def)
  with a b c show ?thesis
    by simp
qed

subsection \<open>C10: the calls that need a session\<close>

text \<open>
  C10, as amended.  With no session, \<open>Call_PushMsg\<close> and \<open>Call_WaitOnMsg\<close>
  return \<open>-1\<close> and change nothing.  With a session, \<open>Call_WaitOnMsg\<close> returns 0
  after \<open>DequeueOutgoing\<close>, and \<open>Call_PushMsg\<close> returns 0 after
  \<open>EnqueueIncoming\<close> of the unmarshalled message when the bytes unmarshal; when
  they do not, it panics and returns nothing.
\<close>

theorem C10_session_sentinel:
  "(gLibSession g = None \<longrightarrow>
      Call_PushMsg U g b = Inr (- 1, g) \<and> Call_WaitOnMsg q g buf = (- 1, buf, g))
   \<and> (gLibSession g \<noteq> None \<longrightarrow>
        Call_WaitOnMsg q g buf = (0, q, g\<lparr>calls := calls g @ [DequeueOutgoing]\<rparr>))
   \<and> (gLibSession g \<noteq> None \<longrightarrow> U b = Some msg \<longrightarrow>
        Call_PushMsg U g b = Inr (0, g\<lparr>calls := calls g @ [EnqueueIncoming msg]\<rparr>))
   \<and> (gLibSession g \<noteq> None \<longrightarrow> U b = None \<longrightarrow> Call_PushMsg U g b = Inl UnmarshalError)"
  by (auto simp: Call_PushMsg_def Call_WaitOnMsg_def split: option.splits)

text \<open>Witness for C10: the calls without a session and with one.\<close>

theorem C10_witness:
  "gLibSession no_session = None
   \<and> Call_PushMsg Unmarshal_example no_session [8, 1] = Inr (- 1, no_session)
   \<and> Call_WaitOnMsg [8, 2] no_session [] = (- 1, [], no_session)
   \<and> gLibSession in_session \<noteq> None
   \<and> Call_WaitOnMsg [8, 2] in_session [] = (0, [8, 2], in_session\<lparr>calls := calls in_session @ [DequeueOutgoing]\<rparr>)
   \<and> Unmarshal_example [8, 1] = Some [8, 1]
   \<and> Call_PushMsg Unmarshal_example in_session [8, 1]
       = Inr (0, in_session\<lparr>calls := calls in_session @ [EnqueueIncoming [8, 1]]\<rparr>)
   \<and> Unmarshal_example [0x80] = None
   \<and> Call_PushMsg Unmarshal_example in_session [0x80] = Inl UnmarshalError"
proof -
  have a: "gLibSession in_session \<noteq> None" and b: "gLibSession no_session = None"
    by (simp_all add: in_session_def no_session_def)
  have u1: "Unmarshal_example [8, 1] = Some [8, 1]" and u2: "Unmarshal_example [0x80] = None"
    by (simp_all add: Unmarshal_example_def)
  note n = C10_session_sentinel [of no_session Unmarshal_example "[8, 1]" "[8, 2]" "[]" "[8, 1]"]
  note s1 = C10_session_sentinel [of in_session Unmarshal_example "[8, 1]" "[8, 2]" "[]" "[8, 1]"]
  note s2 = C10_session_sentinel [of in_session Unmarshal_example "[0x80]" "[8, 2]" "[]" "[8, 1]"]
  from n b have "Call_PushMsg Unmarshal_example no_session [8, 1] = Inr (- 1, no_session)"
    "Call_WaitOnMsg [8, 2] no_session [] = (- 1, [], no_session)"
    by blast+
  moreover from s1 a u1 have
    "Call_WaitOnMsg [8, 2] in_session [] = (0, [8, 2], in_session\<lparr>calls := calls in_session @ [DequeueOutgoing]\<rparr>)"
    "Call_PushMsg Unmarshal_example in_session [8, 1]
       = Inr (0, in_session\<lparr>calls := calls in_session @ [EnqueueIncoming [8, 1]]\<rparr>)"
    by blast+
  moreover from s2 a u2 have "Call_PushMsg Unmarshal_example in_session [0x80] = Inl UnmarshalError"
    by blast
  ultimately show ?thesis
    using a b u1 u2 by simp
qed

text \<open>
  Counterexample to C10 as stated: with a session in the slot and bytes that do not
  unmarshal, \<open>Call_PushMsg\<close> does not return 0: it panics.
\<close>

theorem C10_counterexample:
  "gLibSession in_session = Some 1
   \<and> Call_PushMsg Unmarshal_example in_session [0x80] = Inl UnmarshalError"
  by (simp add: Call_PushMsg_def in_session_def Unmarshal_example_def)

subsection \<open>C7: the five bytes of an ID\<close>

text \<open>
  C7.  For every ID below \<open>2 ^ 40\<close>, \<open>WriteTo\<close> appends exactly five bytes to its
  argument, most significant byte first (read as base-256 digits from the left they
  give the ID), and \<open>ReadFrom\<close> on those five bytes gives the ID back and returns
  \<open>IDSz\<close>.
\<close>

theorem C7_WriteTo_ReadFrom_roundtrip:
  assumes "sid < 2 ^ 40"
  shows "take (length io) (WriteTo sid io) = io
       \<and> length (WriteTo sid io) = length io + 5
       \<and> foldl (\<lambda>acc b. acc * 256 + unat b) 0 (drop (length io) (WriteTo sid io)) = unat sid
       \<and> ReadFrom (drop (length io) (WriteTo sid io)) = Inr (sid, IDSz)"
proof -
  have "take (length io) (WriteTo sid io) = io"
    by (simp add: WriteTo_def)
  moreover have "length (WriteTo sid io) = length io + 5"
    by (simp add: WriteTo_def)
  ultimately show ?thesis
    using WriteTo_big_endian [OF assms, of io] ReadFrom_WriteTo [OF assms, of io] by simp
qed

theorem C7_roundtrip_witness:
  "(0x0102030405 :: ID) < 2 ^ 40
   \<and> WriteTo 0x0102030405 [9] = [9, 1, 2, 3, 4, 5]
   \<and> ReadFrom [1, 2, 3, 4, 5] = Inr (0x0102030405, IDSz)"
proof -
  have b: "(0x0102030405 :: ID) < 2 ^ 40"
    by simp
  have w: "WriteTo 0x0102030405 [9] = [9, 1, 2, 3, 4, 5]"
    by (simp add: WriteTo_def)
  from C7_WriteTo_ReadFrom_roundtrip [OF b, of "[9]"] show ?thesis
    using b w by simp
qed

end
